theory Spec2Isabelle
  imports Complex_Main "HOL-Library.AList" "HOL-Library.Multiset"
begin

section \<open>Python values\<close>

text \<open>
  The coordinator (src/multi_db_coordinator.py) works on dictionaries of type
  \<^verbatim>\<open>Dict[str, Any]\<close>. The values a backend puts into a record come from scraped text
  or from a JSON answer (src/uspto_search_bot.py, \<^verbatim>\<open>_parse_api_results\<close>), so a field can
  be \<^verbatim>\<open>None\<close>, a number, a string, a list or a nested dictionary. A dictionary keeps
  its insertion order and is an association list here; \<^verbatim>\<open>d[k] = v\<close> is
  \<open>AList.update\<close> (in place when the key exists, appended otherwise).
  Strings are lists of 8-bit characters: the model is that of ASCII text.
\<close>

datatype pyval =
    PNone
  | PInt int
  | PStr string
  | PList "pyval list"
  | PDict "(string \<times> pyval) list"

type_synonym patent = "(string \<times> pyval) list"

datatype py_error =
    AttributeError
  | TypeError
  | ValueError string
  | BackendException string

text \<open>\<^verbatim>\<open>d.get(k, default)\<close>\<close>

definition dict_get :: "patent \<Rightarrow> string \<Rightarrow> pyval \<Rightarrow> pyval" where
  "dict_get d k dflt = (case map_of d k of Some v \<Rightarrow> v | None \<Rightarrow> dflt)"

text \<open>\<^verbatim>\<open>d[k] = v\<close>\<close>

definition dict_set :: "patent \<Rightarrow> string \<Rightarrow> pyval \<Rightarrow> patent" where
  "dict_set d k v = AList.update k v d"

text \<open>Truth value of an object, as \<^verbatim>\<open>if x\<close> and \<^verbatim>\<open>not x\<close> read it.\<close>

fun truthy :: "pyval \<Rightarrow> bool" where
  "truthy PNone = False"
| "truthy (PInt i) = (i \<noteq> 0)"
| "truthy (PStr s) = (s \<noteq> [])"
| "truthy (PList xs) = (xs \<noteq> [])"
| "truthy (PDict kvs) = (kvs \<noteq> [])"

text \<open>\<^verbatim>\<open>a + b\<close>: defined on two lists, two strings and two integers; \<^verbatim>\<open>TypeError\<close> otherwise.\<close>

fun py_add :: "pyval \<Rightarrow> pyval \<Rightarrow> py_error + pyval" where
  "py_add (PList xs) (PList ys) = Inr (PList (xs @ ys))"
| "py_add (PStr s) (PStr t) = Inr (PStr (s @ t))"
| "py_add (PInt i) (PInt j) = Inr (PInt (i + j))"
| "py_add _ _ = Inl TypeError"

text \<open>Lists and dictionaries are unhashable and cannot be members of a set.\<close>

fun hashable :: "pyval \<Rightarrow> bool" where
  "hashable (PList xs) = False"
| "hashable (PDict kvs) = False"
| "hashable _ = True"

section \<open>Library functions taken as parameters\<close>

text \<open>
  Five things the code relies on are outside the repository and their values are not fixed by
  it: the MD5 digest (\<^verbatim>\<open>hashlib.md5(s.encode('utf-8')).hexdigest()\<close>), the built-in
  \<^verbatim>\<open>hash\<close> of a string (seeded per process), \<^verbatim>\<open>str\<close> of a dictionary, the
  iteration order of a \<^verbatim>\<open>set\<close>, and the order in which the futures of a thread pool
  complete. They are the fields of an environment; \<open>well_behaved\<close> states what the
  library guarantees of the last two.
\<close>

record env =
  md5_hexdigest :: "string \<Rightarrow> string"
  builtin_hash :: "string \<Rightarrow> int"
  py_str :: "pyval \<Rightarrow> string"
  set_iteration :: "pyval list \<Rightarrow> pyval list"
  completion_order :: "string list \<Rightarrow> string list"

definition well_behaved :: "env \<Rightarrow> bool" where
  "well_behaved E =
     ((\<forall>xs. set (set_iteration E xs) = set xs \<and> distinct (set_iteration E xs)) \<and>
      (\<forall>ds. mset (completion_order E ds) = mset ds))"

text \<open>
  \<^verbatim>\<open>list(set(v))\<close>: a list gives its distinct members (all must be hashable), a string
  its characters, a dictionary its keys; \<^verbatim>\<open>None\<close> and integers are not iterable.
\<close>

fun py_list_set :: "env \<Rightarrow> pyval \<Rightarrow> py_error + pyval" where
  "py_list_set E (PList xs) =
     (if list_all hashable xs then Inr (PList (set_iteration E xs)) else Inl TypeError)"
| "py_list_set E (PStr s) = Inr (PList (set_iteration E (map (\<lambda>c. PStr [c]) s)))"
| "py_list_set E (PDict kvs) = Inr (PList (set_iteration E (map (\<lambda>kv. PStr (fst kv)) kvs)))"
| "py_list_set E _ = Inl TypeError"

text \<open>\<^verbatim>\<open>list(set(a + b))\<close>, the union the merge uses for every multi-valued field.\<close>

definition py_union :: "env \<Rightarrow> pyval \<Rightarrow> pyval \<Rightarrow> py_error + pyval" where
  "py_union E a b = (case py_add a b of Inl e \<Rightarrow> Inl e | Inr s \<Rightarrow> py_list_set E s)"

section \<open>String methods\<close>

definition ascii_lowercase :: string where
  "ascii_lowercase = ''abcdefghijklmnopqrstuvwxyz''"

definition ascii_uppercase :: string where
  "ascii_uppercase = ''ABCDEFGHIJKLMNOPQRSTUVWXYZ''"

definition digits :: string where
  "digits = ''0123456789''"

definition char_upper :: "char \<Rightarrow> char" where
  "char_upper c = (case map_of (zip ascii_lowercase ascii_uppercase) c of Some d \<Rightarrow> d | None \<Rightarrow> c)"

definition char_lower :: "char \<Rightarrow> char" where
  "char_lower c = (case map_of (zip ascii_uppercase ascii_lowercase) c of Some d \<Rightarrow> d | None \<Rightarrow> c)"

text \<open>\<^verbatim>\<open>s.upper()\<close> and \<^verbatim>\<open>s.lower()\<close>\<close>

definition py_upper :: "string \<Rightarrow> string" where
  "py_upper s = map char_upper s"

definition py_lower :: "string \<Rightarrow> string" where
  "py_lower s = map char_lower s"

text \<open>
  The ASCII characters \<^verbatim>\<open>str.isspace\<close> accepts: tab, line feed, vertical tab, form
  feed, carriage return, the four separators 0x1C to 0x1F, and the space.
\<close>

definition is_space :: "char \<Rightarrow> bool" where
  "is_space c =
     (c \<in> set [CHR 0x09, CHR 0x0A, CHR 0x0B, CHR 0x0C, CHR 0x0D,
                CHR 0x1C, CHR 0x1D, CHR 0x1E, CHR 0x1F, CHR 0x20])"

text \<open>\<^verbatim>\<open>s.strip()\<close>\<close>

definition py_strip :: "string \<Rightarrow> string" where
  "py_strip s = rev (dropWhile is_space (rev (dropWhile is_space s)))"

text \<open>
  \<^verbatim>\<open>s.replace(old, new)\<close>: every occurrence of \<open>old\<close>, found from the left and not
  overlapping, becomes \<open>new\<close>. When \<open>old\<close> is a prefix of \<open>c # cs\<close> the scan goes on
  after it, at \<open>drop (length old) (c # cs) = drop (length old - 1) cs\<close>. An empty
  \<open>old\<close> matches before every character and at the end.
\<close>

fun py_replace :: "string \<Rightarrow> string \<Rightarrow> string \<Rightarrow> string" where
  "py_replace old new [] = (if old = [] then new else [])"
| "py_replace old new (c # cs) =
     (if old = [] then new @ c # py_replace old new cs
      else if take (length old) (c # cs) = old
           then new @ py_replace old new (drop (length old - 1) cs)
           else c # py_replace old new cs)"

text \<open>\<^verbatim>\<open>str(n)\<close> of an integer: decimal digits, with a minus sign below zero.\<close>

fun nat_str :: "nat \<Rightarrow> string" where
  "nat_str n = (if n < 10 then [digits ! n] else nat_str (n div 10) @ [digits ! (n mod 10)])"

declare nat_str.simps [simp del]

definition int_str :: "int \<Rightarrow> string" where
  "int_str i = (if i < 0 then CHR ''-'' # nat_str (nat (- i)) else nat_str (nat i))"

section \<open>The fingerprint\<close>

text \<open>
  Line 342 of src/multi_db_coordinator.py, applied to the stripped and uppercased number:
  \<^verbatim>\<open>.replace("US", "").replace("TW", "").replace("-", "").replace(" ", "")\<close>
\<close>

definition normalize_number :: "string \<Rightarrow> string" where
  "normalize_number n =
     py_replace '' '' [] (py_replace ''-'' [] (py_replace ''TW'' [] (py_replace ''US'' []
       (py_upper (py_strip n)))))"

definition normalize_title :: "string \<Rightarrow> string" where
  "normalize_title t = py_lower (py_strip t)"

text \<open>
  The body of the \<^verbatim>\<open>try\<close> of \<^verbatim>\<open>_calculate_patent_hash\<close> up to the string that is
  hashed. \<^verbatim>\<open>patent.get("patent_number", "")\<close> gives the empty string for a missing key;
  a value that is present and is not a string has no method \<^verbatim>\<open>strip\<close>, and the call
  raises \<^verbatim>\<open>AttributeError\<close>. The number is read before the title.
\<close>

definition hash_string :: "patent \<Rightarrow> py_error + string" where
  "hash_string patent =
     (case dict_get patent ''patent_number'' (PStr []) of
        PStr n \<Rightarrow>
          (case dict_get patent ''title'' (PStr []) of
             PStr t \<Rightarrow> Inr (normalize_number n @ ''|'' @ normalize_title t)
           | _ \<Rightarrow> Inl AttributeError)
      | _ \<Rightarrow> Inl AttributeError)"

text \<open>
  \<^verbatim>\<open>_calculate_patent_hash\<close>: the digest of the hash string, and in the handler
  \<^verbatim>\<open>str(hash(str(patent)))\<close>.
\<close>

definition calculate_patent_hash :: "env \<Rightarrow> patent \<Rightarrow> string" where
  "calculate_patent_hash E patent =
     (case hash_string patent of
        Inr s \<Rightarrow> md5_hexdigest E s
      | Inl e \<Rightarrow> int_str (builtin_hash E (py_str E (PDict patent))))"

section \<open>Merging two records\<close>

text \<open>
  One union of \<^verbatim>\<open>_merge_patent_info\<close>, for the key \<open>k\<close>:
  \<^verbatim>\<open>existing[k] = list(set(existing.get(k, []) + new.get(k, [])))\<close>.
  The assignment is not reached when the sum or the set raises.
\<close>

definition union_field :: "env \<Rightarrow> string \<Rightarrow> patent \<Rightarrow> patent \<Rightarrow> py_error + patent" where
  "union_field E k existing new =
     (case py_union E (dict_get existing k (PList [])) (dict_get new k (PList [])) of
        Inl e \<Rightarrow> Inl e
      | Inr v \<Rightarrow> Inr (dict_set existing k v))"

text \<open>
  \<^verbatim>\<open>if not existing.get(k) and new.get(k): existing[k] = new[k]\<close>
\<close>

definition fill_field :: "string \<Rightarrow> patent \<Rightarrow> patent \<Rightarrow> patent" where
  "fill_field k existing new =
     (if \<not> truthy (dict_get existing k PNone) \<and> truthy (dict_get new k PNone)
      then dict_set existing k (dict_get new k PNone)
      else existing)"

text \<open>
  The \<^verbatim>\<open>try\<close> block of \<^verbatim>\<open>_merge_patent_info\<close>. The first component is the exception
  that left the block, if one did; the second is \<open>existing\<close> as the block left it: the
  assignments made before the exception stay. The two records are distinct objects (each
  backend builds a fresh dictionary for every hit).
\<close>

definition merge_patent_info_try :: "env \<Rightarrow> patent \<Rightarrow> patent \<Rightarrow> py_error option \<times> patent" where
  "merge_patent_info_try E existing new =
     (case union_field E ''inventors'' existing new of
        Inl e \<Rightarrow> (Some e, existing)
      | Inr p1 \<Rightarrow>
     (case union_field E ''applicants'' p1 new of
        Inl e \<Rightarrow> (Some e, p1)
      | Inr p2 \<Rightarrow>
     (case union_field E ''ipc_classes'' p2 new of
        Inl e \<Rightarrow> (Some e, p2)
      | Inr p3 \<Rightarrow>
     (let p4 = fill_field ''abstract'' p3 new;
          p5 = fill_field ''claims'' p4 new;
          p6 = fill_field ''description'' p5 new
      in case union_field E ''images'' p6 new of
           Inl e \<Rightarrow> (Some e, p6)
         | Inr p7 \<Rightarrow> (None, p7)))))"

text \<open>\<^verbatim>\<open>_merge_patent_info\<close>: the handler logs the exception and returns.\<close>

definition merge_patent_info :: "env \<Rightarrow> patent \<Rightarrow> patent \<Rightarrow> patent" where
  "merge_patent_info E existing new = snd (merge_patent_info_try E existing new)"

section \<open>Deduplication\<close>

text \<open>
  \<^verbatim>\<open>_deduplicate_patents\<close> mutates the records it keeps. The state of its loop is the
  list of the records already visited, each with its current contents and a flag that
  says whether it is in \<^verbatim>\<open>deduplicated\<close>, and the list \<^verbatim>\<open>seen_hashes\<close>.

  \<open>merge_into\<close> is the inner loop (lines 315 to 326): the first kept record whose
  current hash is \<open>h\<close> gets the sources and the fields of \<open>new\<close>; when no kept record
  has that hash nothing changes. The union of the sources is outside
  \<^verbatim>\<open>_merge_patent_info\<close>, so its exception leaves the loop.
\<close>

fun merge_into ::
  "env \<Rightarrow> string \<Rightarrow> patent \<Rightarrow> (patent \<times> bool) list \<Rightarrow> py_error + (patent \<times> bool) list" where
  "merge_into E h new [] = Inr []"
| "merge_into E h new ((p, kept) # ps) =
     (if kept \<and> calculate_patent_hash E p = h
      then (case union_field E ''source_databases'' p new of
              Inl e \<Rightarrow> Inl e
            | Inr p' \<Rightarrow> Inr ((merge_patent_info E p' new, kept) # ps))
      else (case merge_into E h new ps of
              Inl e \<Rightarrow> Inl e
            | Inr ps' \<Rightarrow> Inr ((p, kept) # ps')))"

text \<open>
  The outer loop. \<open>Inr\<close> is the state at the end of the list; \<open>Inl\<close> is the current
  contents of the whole input list when an exception left the loop.
\<close>

fun dedup_loop ::
  "env \<Rightarrow> (patent \<times> bool) list \<Rightarrow> string list \<Rightarrow> patent list
     \<Rightarrow> patent list + (patent \<times> bool) list" where
  "dedup_loop E visited seen_hashes [] = Inr visited"
| "dedup_loop E visited seen_hashes (p # rest) =
     (let patent_hash = calculate_patent_hash E p in
      if patent_hash \<notin> set seen_hashes
      then dedup_loop E (visited @ [(p, True)]) (patent_hash # seen_hashes) rest
      else (case merge_into E patent_hash p visited of
              Inl e \<Rightarrow> Inl (map fst visited @ p # rest)
            | Inr visited' \<Rightarrow> dedup_loop E (visited' @ [(p, False)]) seen_hashes rest))"

text \<open>
  \<^verbatim>\<open>_deduplicate_patents\<close>: the kept records in first-seen order; the handler returns
  the input list \<^verbatim>\<open>patents\<close>.
\<close>

definition deduplicate_patents :: "env \<Rightarrow> patent list \<Rightarrow> patent list" where
  "deduplicate_patents E patents =
     (if patents = [] then []
      else (case dedup_loop E [] [] patents of
              Inr visited \<Rightarrow> map fst (filter snd visited)
            | Inl ps \<Rightarrow> ps))"

section \<open>Backend results and the execution log\<close>

text \<open>
  The dictionary a backend returns (src/twpat_search_bot.py, lines 429 to 436 and 448 to
  456; the same in src/uspto_search_bot.py) and the one the coordinator writes for a
  failed backend. The members of \<open>results\<close> are arbitrary values: the merge needs them
  to be dictionaries.
\<close>

record backend_result =
  status :: string
  error :: "string option"
  total_found :: int
  results :: "pyval list"
  downloaded_files :: "string list"

text \<open>
  What \<^verbatim>\<open>bot.search_patents(...)\<close> does for the query of this run: it returns a
  dictionary or raises an exception with a message. \<^verbatim>\<open>self.bots\<close> maps the registered
  database ids to their backends.
\<close>

datatype backend_outcome = Returns backend_result | Raises string

type_synonym bots = "string \<Rightarrow> backend_outcome option"

type_synonym results_map = "(string \<times> backend_result) list"

text \<open>The entries of \<^verbatim>\<open>self.execution_log\<close>, by the line that appends them.\<close>

datatype log_entry =
    RunStarted "string list"
  | ParallelMode
  | SequentialMode
  | UnsupportedDatabase string
  | SearchStarted string
  | SearchCompleted string int
  | SearchFailed string string
  | MergeStarted
  | DedupCompleted nat nat
  | MergeFailed py_error
  | RunCompleted nat
  | RunFailed py_error

text \<open>The error text of line 215, as UTF-8 bytes; it reads "unsupported database".\<close>

definition unsupported_database :: string where
  "unsupported_database =
     [CHR 0xE4, CHR 0xB8, CHR 0x8D, CHR 0xE6, CHR 0x94, CHR 0xAF, CHR 0xE6, CHR 0x8F,
      CHR 0xB4, CHR 0xE7, CHR 0x9A, CHR 0x84, CHR 0xE8, CHR 0xB3, CHR 0x87, CHR 0xE6,
      CHR 0x96, CHR 0x99, CHR 0xE5, CHR 0xBA, CHR 0xAB]"

definition failed_result :: "string \<Rightarrow> backend_result" where
  "failed_result msg =
     \<lparr>status = ''failed'', error = Some msg, total_found = 0, results = [],
      downloaded_files = []\<rparr>"

section \<open>Collecting and merging the results of a run\<close>

text \<open>
  Lines 278 to 281: \<^verbatim>\<open>patent["source_databases"] = [db]\<close> for every member of the
  result list. The assignment raises \<^verbatim>\<open>TypeError\<close> on a value that is not a dictionary.
  The value is the list of the tagged records; what the assignments leave in the result
  lists themselves is \<open>tagged_in_place\<close> below.
\<close>

fun tag_patents :: "string \<Rightarrow> pyval list \<Rightarrow> py_error + patent list" where
  "tag_patents db [] = Inr []"
| "tag_patents db (PDict kvs # vs) =
     (case tag_patents db vs of
        Inl e \<Rightarrow> Inl e
      | Inr ps \<Rightarrow> Inr (dict_set kvs ''source_databases'' (PList [PStr db]) # ps))"
| "tag_patents db (v # vs) = Inl TypeError"

text \<open>Lines 275 to 281: the records of the backends whose status is \<^verbatim>\<open>completed\<close>.\<close>

fun collect_patents :: "results_map \<Rightarrow> py_error + patent list" where
  "collect_patents [] = Inr []"
| "collect_patents ((db, r) # rest) =
     (if status r = ''completed''
      then (case tag_patents db (results r) of
              Inl e \<Rightarrow> Inl e
            | Inr ps \<Rightarrow>
                (case collect_patents rest of
                   Inl e \<Rightarrow> Inl e
                 | Inr qs \<Rightarrow> Inr (ps @ qs)))
      else collect_patents rest)"

text \<open>
  \<^verbatim>\<open>_merge_and_deduplicate_results\<close>, with the execution log it extends. Its handler
  returns the empty list.
\<close>

definition merge_and_deduplicate_results ::
  "env \<Rightarrow> results_map \<Rightarrow> log_entry list \<Rightarrow> patent list \<times> log_entry list" where
  "merge_and_deduplicate_results E res_map log0 =
     (case collect_patents res_map of
        Inl e \<Rightarrow> ([], log0 @ [MergeStarted, MergeFailed e])
      | Inr all_patents \<Rightarrow>
          (let deduplicated_patents = deduplicate_patents E all_patents
           in (deduplicated_patents,
               log0 @ [MergeStarted,
                      DedupCompleted (length all_patents) (length deduplicated_patents)])))"

section \<open>The result map after the merge step\<close>

text \<open>
  The tag of line 280 and the merges of lines 322 to 389 are assignments into the
  dictionaries that the result lists of the backends hold, and line 93 puts the same
  result map into the summary: the caller finds every record there as the merge step left
  it. The records of a run are distinct objects (each backend builds a fresh dictionary for
  every hit), so the contents of an object are known from its position.

  \<open>tagged_in_place\<close> is a result list after the loop of lines 278 to 281 ran over it:
  the loop stops at the first value that is not a dictionary, and the dictionaries before
  it carry the tag.
\<close>

fun tagged_in_place :: "string \<Rightarrow> pyval list \<Rightarrow> pyval list" where
  "tagged_in_place db [] = []"
| "tagged_in_place db (PDict kvs # vs) =
     PDict (dict_set kvs ''source_databases'' (PList [PStr db])) # tagged_in_place db vs"
| "tagged_in_place db (v # vs) = v # vs"

text \<open>
  The result map after the loop of lines 275 to 281: when the tagging of an entry raises,
  the entries after it have not been visited.
\<close>

fun results_after_tagging :: "results_map \<Rightarrow> results_map" where
  "results_after_tagging [] = []"
| "results_after_tagging ((db, r) # rest) =
     (if status r = ''completed''
      then (db, r\<lparr>results := tagged_in_place db (results r)\<rparr>) #
           (case tag_patents db (results r) of
              Inl e \<Rightarrow> rest
            | Inr ps \<Rightarrow> results_after_tagging rest)
      else (db, r) # results_after_tagging rest)"

text \<open>
  The contents of the objects of \<^verbatim>\<open>all_patents\<close>, in the order of that list, when
  \<^verbatim>\<open>_deduplicate_patents\<close> returns: the records it kept with what was merged into
  them, the duplicates as they were. When an exception leaves the loop they are what the
  handler returns.
\<close>

definition final_contents :: "env \<Rightarrow> patent list \<Rightarrow> patent list" where
  "final_contents E patents =
     (case dedup_loop E [] [] patents of
        Inr visited \<Rightarrow> map fst visited
      | Inl ps \<Rightarrow> ps)"

text \<open>
  The result map whose completed entries hold the objects of \<^verbatim>\<open>all_patents\<close>, each
  entry as many of them as it has records, with the contents \<open>ps\<close>.
\<close>

fun write_back :: "results_map \<Rightarrow> patent list \<Rightarrow> results_map" where
  "write_back [] ps = []"
| "write_back ((db, r) # rest) ps =
     (if status r = ''completed''
      then (db, r\<lparr>results := map PDict (take (length (results r)) ps)\<rparr>) #
           write_back rest (drop (length (results r)) ps)
      else (db, r) # write_back rest ps)"

text \<open>
  The result map after \<^verbatim>\<open>_merge_and_deduplicate_results\<close>, which is what the key
  \<^verbatim>\<open>results_by_database\<close> of the summary holds.
\<close>

definition results_after_merge :: "env \<Rightarrow> results_map \<Rightarrow> results_map" where
  "results_after_merge E res_map =
     (case collect_patents res_map of
        Inl e \<Rightarrow> results_after_tagging res_map
      | Inr all_patents \<Rightarrow> write_back res_map (final_contents E all_patents))"

section \<open>Statistics\<close>

text \<open>
  \<^verbatim>\<open>sum(len(result.get("results", [])) for result in results.values())\<close>
\<close>

definition total_original :: "results_map \<Rightarrow> nat" where
  "total_original res_map = sum_list (map (\<lambda>dr. length (results (snd dr))) res_map)"

text \<open>
  \<^verbatim>\<open>_calculate_dedup_ratio\<close>. The difference is one of integers and can be negative;
  the quotient is the exact one, of which Python's float is the correctly rounded value
  (rounding keeps 0, 1 and the order).
\<close>

definition calculate_dedup_ratio :: "results_map \<Rightarrow> patent list \<Rightarrow> real" where
  "calculate_dedup_ratio res_map merged_results =
     (let total = total_original res_map;
          total_merged = length merged_results
      in if total = 0 then 0
         else (real total - real total_merged) / real total)"

section \<open>The two execution strategies\<close>

text \<open>
  One turn of the loop of \<^verbatim>\<open>_search_sequential\<close> (lines 195 to 232): a registered
  backend is called, its result or the failure entry of its exception is stored; an
  unregistered id gets the failure entry of line 213.
\<close>

definition sequential_step ::
  "bots \<Rightarrow> string \<Rightarrow> results_map \<times> log_entry list \<Rightarrow> results_map \<times> log_entry list" where
  "sequential_step bs db st =
     (case bs db of
        Some (Returns r) \<Rightarrow>
          (AList.update db r (fst st),
           snd st @ [SearchStarted db, SearchCompleted db (total_found r)])
      | Some (Raises msg) \<Rightarrow>
          (AList.update db (failed_result msg) (fst st),
           snd st @ [SearchStarted db, SearchFailed db msg])
      | None \<Rightarrow>
          (AList.update db (failed_result unsupported_database) (fst st),
           snd st @ [UnsupportedDatabase db]))"

definition search_sequential ::
  "bots \<Rightarrow> string list \<Rightarrow> log_entry list \<Rightarrow> results_map \<times> log_entry list" where
  "search_sequential bs databases log0 =
     fold (sequential_step bs) databases ([], log0 @ [SequentialMode])"

text \<open>
  One turn of the collecting loop of \<^verbatim>\<open>_search_parallel\<close> (lines 153 to 173), for a
  future that has completed.
\<close>

definition parallel_collect ::
  "bots \<Rightarrow> string \<Rightarrow> results_map \<times> log_entry list \<Rightarrow> results_map \<times> log_entry list" where
  "parallel_collect bs db st =
     (case bs db of
        Some (Returns r) \<Rightarrow>
          (AList.update db r (fst st), snd st @ [SearchCompleted db (total_found r)])
      | Some (Raises msg) \<Rightarrow>
          (AList.update db (failed_result msg) (fst st), snd st @ [SearchFailed db msg])
      | None \<Rightarrow> st)"

text \<open>
  \<^verbatim>\<open>_search_parallel\<close>. \<^verbatim>\<open>ThreadPoolExecutor(max_workers=len(databases))\<close> raises
  \<^verbatim>\<open>ValueError("max_workers must be greater than 0")\<close> for an empty list; the handler
  of line 177 raises it again. The submitting loop (lines 141 to 150) gives a future to
  every registered id and only a log entry to an unregistered one; the futures are
  collected in the order in which they complete.
\<close>

definition search_parallel ::
  "env \<Rightarrow> bots \<Rightarrow> string list \<Rightarrow> log_entry list
     \<Rightarrow> (py_error + results_map) \<times> log_entry list" where
  "search_parallel E bs databases log0 =
     (if length databases = 0
      then (Inl (ValueError ''max_workers must be greater than 0''), log0 @ [ParallelMode])
      else (let future_to_db = filter (\<lambda>db. bs db \<noteq> None) databases;
                log1 = log0 @ [ParallelMode]
                         @ map UnsupportedDatabase (filter (\<lambda>db. bs db = None) databases);
                st = fold (parallel_collect bs) (completion_order E future_to_db) ([], log1)
            in (Inr (fst st), snd st)))"

section \<open>The run\<close>

text \<open>
  The dictionary \<^verbatim>\<open>search_multiple_databases\<close> returns. The keys
  \<^verbatim>\<open>total_found_by_db\<close>, \<^verbatim>\<open>deduplication_ratio\<close> and \<^verbatim>\<open>results_by_database\<close> exist only
  in the summary of line 85, \<^verbatim>\<open>error\<close> only in that of line 110; the execution time
  is left out. The log is the object \<^verbatim>\<open>self.execution_log\<close> itself, so the entry of
  line 99 is in it. The result map is read after the merge step has changed its records;
  the counts of lines 88, 89 and 401 are lengths of the result lists and the files of line
  75 are those of the entries, which it does not change (\<open>summary_counts_unchanged\<close>
  below), so they are written here for the map as the search left it.
\<close>

record summary =
  run_status :: string
  run_error :: "py_error option"
  databases_searched :: "string list"
  total_found_by_db :: "(string \<times> nat) list option"
  run_total_found :: nat
  merged_count :: nat
  deduplication_ratio :: "real option"
  merged_results :: "patent list"
  results_by_database :: "results_map option"
  all_downloaded_files :: "string list"
  execution_log :: "log_entry list"

definition completed_summary ::
  "env \<Rightarrow> string list \<Rightarrow> results_map \<Rightarrow> log_entry list \<Rightarrow> summary" where
  "completed_summary E databases res_map log0 =
     (let mr = merge_and_deduplicate_results E res_map log0;
          merged = fst mr
      in \<lparr>run_status = ''completed'',
          run_error = None,
          databases_searched = databases,
          total_found_by_db = Some (map (\<lambda>dr. (fst dr, length (results (snd dr)))) res_map),
          run_total_found = total_original res_map,
          merged_count = length merged,
          deduplication_ratio = Some (calculate_dedup_ratio res_map merged),
          merged_results = merged,
          results_by_database = Some (results_after_merge E res_map),
          all_downloaded_files = concat (map (\<lambda>dr. downloaded_files (snd dr)) res_map),
          execution_log = snd mr @ [RunCompleted (length merged)]\<rparr>)"

definition failed_summary :: "string list \<Rightarrow> py_error \<Rightarrow> log_entry list \<Rightarrow> summary" where
  "failed_summary databases e log0 =
     \<lparr>run_status = ''failed'',
      run_error = Some e,
      databases_searched = databases,
      total_found_by_db = None,
      run_total_found = 0,
      merged_count = 0,
      deduplication_ratio = None,
      merged_results = [],
      results_by_database = None,
      all_downloaded_files = [],
      execution_log = log0 @ [RunFailed e]\<rparr>"

text \<open>
  \<^verbatim>\<open>search_multiple_databases\<close>; \<open>log0\<close> is \<^verbatim>\<open>self.execution_log\<close> at the call.
\<close>

definition search_multiple_databases ::
  "env \<Rightarrow> bots \<Rightarrow> string list \<Rightarrow> bool \<Rightarrow> log_entry list \<Rightarrow> summary" where
  "search_multiple_databases E bs databases parallel log0 =
     (let log1 = log0 @ [RunStarted databases]
      in if parallel
         then (case search_parallel E bs databases log1 of
                 (Inl e, log2) \<Rightarrow> failed_summary databases e log2
               | (Inr res_map, log2) \<Rightarrow> completed_summary E databases res_map log2)
         else (case search_sequential bs databases log1 of
                 (res_map, log2) \<Rightarrow> completed_summary E databases res_map log2))"

section \<open>Records of the data model\<close>

text \<open>
  The spec's PatentRecord has a string for the number and the title and a set of strings
  for \<^verbatim>\<open>source_databases\<close>, \<^verbatim>\<open>inventors\<close>, \<^verbatim>\<open>applicants\<close>, \<^verbatim>\<open>ipc_classes\<close> and
  \<^verbatim>\<open>images\<close>. The code does not check any of this; the predicates below say when a
  dictionary has these types, a missing key counting as its default.
\<close>

fun is_dict :: "pyval \<Rightarrow> bool" where
  "is_dict (PDict kvs) = True"
| "is_dict _ = False"

fun is_str :: "pyval \<Rightarrow> bool" where
  "is_str (PStr s) = True"
| "is_str _ = False"

definition string_keys_ok :: "patent \<Rightarrow> bool" where
  "string_keys_ok p =
     (is_str (dict_get p ''patent_number'' (PStr [])) \<and> is_str (dict_get p ''title'' (PStr [])))"

fun multi_valued :: "pyval \<Rightarrow> bool" where
  "multi_valued (PList xs) = list_all hashable xs"
| "multi_valued _ = False"

definition list_keys :: "string list" where
  "list_keys = [''source_databases'', ''inventors'', ''applicants'', ''ipc_classes'', ''images'']"

definition list_fields_ok :: "patent \<Rightarrow> bool" where
  "list_fields_ok p = list_all (\<lambda>k. multi_valued (dict_get p k (PList []))) list_keys"

definition well_typed :: "patent \<Rightarrow> bool" where
  "well_typed p = (string_keys_ok p \<and> list_fields_ok p)"

text \<open>The members of a multi-valued field, as a set.\<close>

fun members :: "pyval \<Rightarrow> pyval set" where
  "members (PList xs) = set xs"
| "members _ = {}"

definition field_members :: "patent \<Rightarrow> string \<Rightarrow> pyval set" where
  "field_members p k = members (dict_get p k (PList []))"

text \<open>
  Two records have the same contents when their multi-valued fields have the same
  members and every other key has the same value, or is missing, in both.
\<close>

definition same_content :: "patent \<Rightarrow> patent \<Rightarrow> bool" where
  "same_content a b =
     (\<forall>k. if k \<in> set list_keys then field_members a k = field_members b k
          else map_of a k = map_of b k)"

text \<open>The two strings \<^verbatim>\<open>_calculate_patent_hash\<close> joins, for a record with string keys.\<close>

definition normalized_number :: "patent \<Rightarrow> string" where
  "normalized_number p =
     (case dict_get p ''patent_number'' (PStr []) of PStr n \<Rightarrow> normalize_number n | _ \<Rightarrow> [])"

definition normalized_title :: "patent \<Rightarrow> string" where
  "normalized_title p =
     (case dict_get p ''title'' (PStr []) of PStr t \<Rightarrow> normalize_title t | _ \<Rightarrow> [])"

text \<open>\<open>occurs pat s\<close>: the string \<open>pat\<close> is found somewhere in \<open>s\<close>.\<close>

fun occurs :: "string \<Rightarrow> string \<Rightarrow> bool" where
  "occurs pat [] = (pat = [])"
| "occurs pat (c # cs) = (take (length pat) (c # cs) = pat \<or> occurs pat cs)"

section \<open>The normalization as the spec words it\<close>

text \<open>
  Section 4.3 of the spec: uppercase the number, strip all non-alphanumeric characters,
  then strip a leading "US" or "TW"; lowercase the title and trim it; join the two with
  a bar. These definitions follow the spec's words, not the code, and serve only to
  compare the two.
\<close>

definition is_alnum :: "char \<Rightarrow> bool" where
  "is_alnum c = (c \<in> set (ascii_lowercase @ ascii_uppercase @ digits))"

definition spec_normalized_number :: "string \<Rightarrow> string" where
  "spec_normalized_number n =
     (let u = filter is_alnum (py_upper n)
      in if take 2 u = ''US'' then drop 2 u else if take 2 u = ''TW'' then drop 2 u else u)"

definition spec_normalized_title :: "string \<Rightarrow> string" where
  "spec_normalized_title t = py_strip (py_lower t)"

definition spec_hash_string :: "string \<Rightarrow> string \<Rightarrow> string" where
  "spec_hash_string n t = spec_normalized_number n @ ''|'' @ spec_normalized_title t"

section \<open>Notions for reasoning about a run\<close>

text \<open>The entry a run stores under a requested id, when it stores one.\<close>

definition entry_for :: "bots \<Rightarrow> string \<Rightarrow> backend_result" where
  "entry_for bs db =
     (case bs db of
        Some (Returns r) \<Rightarrow> r
      | Some (Raises msg) \<Rightarrow> failed_result msg
      | None \<Rightarrow> failed_result unsupported_database)"

text \<open>The databases a record is attributed to.\<close>

definition sources :: "patent \<Rightarrow> pyval set" where
  "sources p = field_members p ''source_databases''"

text \<open>
  A record as the merge step hands it to the deduplication: number and title are strings
  and \<^verbatim>\<open>source_databases\<close> is a list of hashable values.
\<close>

definition keyed :: "patent \<Rightarrow> bool" where
  "keyed p =
     (string_keys_ok p \<and> multi_valued (dict_get p ''source_databases'' (PList [])))"

text \<open>
  \<open>grown E x y\<close>: the visited record \<open>y\<close> is \<open>x\<close> after merges, with the same flag and
  fingerprint and at least the sources of \<open>x\<close>. \<open>covered E h S vis\<close>: a kept record of
  \<open>vis\<close> has the fingerprint \<open>h\<close> and all of the sources \<open>S\<close>.
\<close>

definition grown :: "env \<Rightarrow> patent \<times> bool \<Rightarrow> patent \<times> bool \<Rightarrow> bool" where
  "grown E x y =
     (snd y = snd x \<and> keyed (fst y) \<and>
      calculate_patent_hash E (fst y) = calculate_patent_hash E (fst x) \<and>
      sources (fst x) \<subseteq> sources (fst y))"

definition covered :: "env \<Rightarrow> string \<Rightarrow> pyval set \<Rightarrow> (patent \<times> bool) list \<Rightarrow> bool" where
  "covered E h S vis =
     (\<exists>m. (m, True) \<in> set vis \<and> calculate_patent_hash E m = h \<and> S \<subseteq> sources m)"

definition kept_hashes :: "env \<Rightarrow> (patent \<times> bool) list \<Rightarrow> string set" where
  "kept_hashes E vis = set (map (\<lambda>x. calculate_patent_hash E (fst x)) (filter snd vis))"

text \<open>A record of the backend \<open>db\<close> as line 280 tags it.\<close>

definition tagged :: "string \<Rightarrow> patent \<Rightarrow> patent" where
  "tagged db kvs = dict_set kvs ''source_databases'' (PList [PStr db])"

text \<open>
  \<open>evolved x y\<close>: the record \<open>y\<close> is \<open>x\<close> after merges, with the number and the
  title of \<open>x\<close> and, in a list of hashable values, at least its sources.
  \<open>first_seen orig vis\<close>: the records of \<open>orig\<close> that the pass kept, \<open>vis\<close> being the
  state of the loop after it visited \<open>orig\<close>.
\<close>

definition evolved :: "patent \<Rightarrow> patent \<Rightarrow> bool" where
  "evolved x y =
     (map_of y ''patent_number'' = map_of x ''patent_number'' \<and>
      map_of y ''title'' = map_of x ''title'' \<and>
      multi_valued (dict_get y ''source_databases'' (PList [])) \<and>
      sources x \<subseteq> sources y)"

definition first_seen :: "patent list \<Rightarrow> (patent \<times> bool) list \<Rightarrow> patent list" where
  "first_seen orig vis = map fst (filter snd (zip orig (map snd vis)))"

text \<open>
  \<open>entry_kept r r'\<close>: the entry \<open>r'\<close> is \<open>r\<close> with the same status, error, count and
  files and as many records, and is \<open>r\<close> itself when \<open>r\<close> is not completed.
\<close>

definition entry_kept :: "backend_result \<Rightarrow> backend_result \<Rightarrow> bool" where
  "entry_kept r r' =
     (r' = r\<lparr>results := results r'\<rparr> \<and> length (results r') = length (results r) \<and>
      (status r \<noteq> ''completed'' \<longrightarrow> r' = r))"

text \<open>
  Every record that a requested backend returns with the status \<^verbatim>\<open>completed\<close> is a
  dictionary; is a dictionary whose number and title are strings (or missing).
\<close>

definition records_are_dicts :: "bots \<Rightarrow> string list \<Rightarrow> bool" where
  "records_are_dicts bs databases =
     list_all (\<lambda>s. case bs s of
                      Some (Returns r) \<Rightarrow>
                        status r = ''completed'' \<longrightarrow> list_all is_dict (results r)
                    | _ \<Rightarrow> True) databases"

definition records_have_string_keys :: "bots \<Rightarrow> string list \<Rightarrow> bool" where
  "records_have_string_keys bs databases =
     list_all (\<lambda>s. case bs s of
                      Some (Returns r) \<Rightarrow>
                        status r = ''completed'' \<longrightarrow>
                          list_all (\<lambda>v. case v of PDict kvs \<Rightarrow> string_keys_ok kvs | _ \<Rightarrow> False)
                            (results r)
                    | _ \<Rightarrow> True) databases"

text \<open>
  What the pass makes of the kept record \<open>q\<close> when it meets \<open>p\<close> with the same
  fingerprint (lines 318 to 325), provided the union of the sources does not raise.
\<close>

definition absorb :: "env \<Rightarrow> patent \<Rightarrow> patent \<Rightarrow> patent" where
  "absorb E q p =
     (case union_field E ''source_databases'' q p of
        Inr q' \<Rightarrow> merge_patent_info E q' p
      | Inl e \<Rightarrow> q)"

section \<open>An environment for concrete runs\<close>

text \<open>
  For evaluating the definitions on concrete inputs: the digest is replaced by the
  identity and the built-in hash by the length, a set is iterated in the order of first
  insertion, and the futures complete in the order of submission.
\<close>

text \<open>\<^verbatim>\<open>sep.join(xs)\<close>\<close>

fun join_with :: "string \<Rightarrow> string list \<Rightarrow> string" where
  "join_with sep [] = []"
| "join_with sep [x] = x"
| "join_with sep (x # y # ys) = x @ sep @ join_with sep (y # ys)"

text \<open>
  A stand-in for \<^verbatim>\<open>str\<close>: the form Python prints, without the escaping of quotes and
  control characters inside strings.
\<close>

fun sample_repr :: "pyval \<Rightarrow> string" where
  "sample_repr PNone = ''None''"
| "sample_repr (PInt i) = int_str i"
| "sample_repr (PStr s) = [CHR 0x27] @ s @ [CHR 0x27]"
| "sample_repr (PList xs) = ''['' @ join_with '', '' (map sample_repr xs) @ '']''"
| "sample_repr (PDict kvs) =
     ''{'' @ join_with '', ''
              (map (\<lambda>kv. [CHR 0x27] @ fst kv @ [CHR 0x27] @ '': '' @ sample_repr (snd kv)) kvs)
       @ ''}''"

definition sample_env :: env where
  "sample_env =
     \<lparr>md5_hexdigest = (\<lambda>s. s),
      builtin_hash = (\<lambda>s. int (length s)),
      py_str = sample_repr,
      set_iteration = remdups,
      completion_order = (\<lambda>ds. ds)\<rparr>"

section \<open>Facts about the sample environment\<close>

lemma sample_env_simps:
  "md5_hexdigest sample_env s = s"
  "set_iteration sample_env xs = remdups xs"
  "completion_order sample_env ds = ds"
  by (simp_all add: sample_env_def)

lemma well_behaved_sample_env: "well_behaved sample_env"
  by (simp add: well_behaved_def sample_env_def)

section \<open>Sizes\<close>

lemma merge_into_length: "merge_into E h new vs = Inr vs' \<Longrightarrow> length vs' = length vs"
  by (induction vs arbitrary: vs') (auto split: if_splits sum.splits)

lemma dedup_loop_length_Inr:
  "dedup_loop E vis seen ps = Inr v \<Longrightarrow> length v = length vis + length ps"
proof (induction ps arbitrary: vis seen)
  case Nil
  then show ?case by simp
next
  case (Cons p ps)
  show ?case
  proof (cases "calculate_patent_hash E p \<notin> set seen")
    case True
    with Cons.prems
    have "dedup_loop E (vis @ [(p, True)]) (calculate_patent_hash E p # seen) ps = Inr v"
      by (simp add: Let_def)
    from Cons.IH[OF this] show ?thesis by simp
  next
    case False
    with Cons.prems obtain vis'
      where m: "merge_into E (calculate_patent_hash E p) p vis = Inr vis'"
        and d: "dedup_loop E (vis' @ [(p, False)]) seen ps = Inr v"
      by (auto simp: Let_def split: sum.splits)
    from Cons.IH[OF d] merge_into_length[OF m] show ?thesis by simp
  qed
qed

lemma dedup_loop_length_Inl:
  "dedup_loop E vis seen ps = Inl qs \<Longrightarrow> length qs = length vis + length ps"
proof (induction ps arbitrary: vis seen)
  case Nil
  then show ?case by simp
next
  case (Cons p ps)
  show ?case
  proof (cases "calculate_patent_hash E p \<notin> set seen")
    case True
    with Cons.prems
    have "dedup_loop E (vis @ [(p, True)]) (calculate_patent_hash E p # seen) ps = Inl qs"
      by (simp add: Let_def)
    from Cons.IH[OF this] show ?thesis by simp
  next
    case False
    show ?thesis
    proof (cases "merge_into E (calculate_patent_hash E p) p vis")
      case (Inl e)
      with False Cons.prems show ?thesis by (auto simp: Let_def)
    next
      case (Inr vis')
      with False Cons.prems have d: "dedup_loop E (vis' @ [(p, False)]) seen ps = Inl qs"
        by (auto simp: Let_def)
      from Cons.IH[OF d] merge_into_length[OF Inr] show ?thesis by simp
    qed
  qed
qed

lemma deduplicate_patents_length: "length (deduplicate_patents E ps) \<le> length ps"
proof (cases "dedup_loop E [] [] ps")
  case (Inl qs)
  from dedup_loop_length_Inl[OF Inl] Inl show ?thesis
    by (simp add: deduplicate_patents_def)
next
  case (Inr v)
  have "length (filter snd v) \<le> length v" by simp
  with dedup_loop_length_Inr[OF Inr] Inr show ?thesis
    by (simp add: deduplicate_patents_def)
qed

lemma tag_patents_length: "tag_patents db vs = Inr ps \<Longrightarrow> length ps = length vs"
  by (induction db vs arbitrary: ps rule: tag_patents.induct) (auto split: sum.splits)

lemma collect_patents_length:
  "collect_patents rm = Inr ps \<Longrightarrow> length ps \<le> total_original rm"
  by (induction rm arbitrary: ps rule: collect_patents.induct)
     (auto simp: total_original_def split: sum.splits if_splits dest: tag_patents_length)

lemma merged_length_le_total:
  "length (fst (merge_and_deduplicate_results E rm lg)) \<le> total_original rm"
proof (cases "collect_patents rm")
  case (Inl e)
  then show ?thesis by (simp add: merge_and_deduplicate_results_def)
next
  case (Inr ps)
  from collect_patents_length[OF Inr] deduplicate_patents_length[of E ps] Inr
  show ?thesis by (simp add: merge_and_deduplicate_results_def Let_def)
qed

lemma dedup_ratio_bounds:
  "length merged \<le> total_original rm \<Longrightarrow>
     0 \<le> calculate_dedup_ratio rm merged \<and> calculate_dedup_ratio rm merged \<le> 1"
  by (simp add: calculate_dedup_ratio_def Let_def divide_le_eq)

lemma run_ratio:
  "deduplication_ratio (search_multiple_databases E bs databases parallel lg) = Some r
     \<Longrightarrow> 0 \<le> r \<and> r \<le> 1"
  by (auto simp: search_multiple_databases_def completed_summary_def failed_summary_def
        Let_def split: if_splits prod.splits sum.splits
        intro!: dedup_ratio_bounds merged_length_le_total)

section \<open>The ids of the result map after the merge step\<close>

lemma tagged_in_place_length: "length (tagged_in_place db vs) = length vs"
  by (induction db vs rule: tagged_in_place.induct) simp_all

lemma write_back_keys: "map fst (write_back rm ps) = map fst rm"
  by (induction rm ps rule: write_back.induct) simp_all

lemma results_after_tagging_keys: "map fst (results_after_tagging rm) = map fst rm"
  by (induction rm rule: results_after_tagging.induct) (simp_all split: sum.splits)

lemma results_after_merge_keys: "map fst (results_after_merge E rm) = map fst rm"
  by (simp add: results_after_merge_def write_back_keys results_after_tagging_keys
        split: sum.splits)

lemma results_after_merge_no_entry:
  "(map_of (results_after_merge E rm) db = None) = (map_of rm db = None)"
  by (metis map_of_eq_None_iff set_map results_after_merge_keys)

section \<open>The deduplication ratio\<close>

text \<open>
  C8. The deduplication ratio is (total - merged) / total when the total is positive and
  exactly 0 when the total is 0, so nothing is divided by zero. It lies between 0 and 1
  whenever the merged list is no longer than the total, and this is so for the merged list
  the engine computes from the result map, hence for the ratio of every run.
\<close>

theorem dedup_ratio_formula_and_range:
  "calculate_dedup_ratio rm merged =
     (if total_original rm = 0 then 0
      else (real (total_original rm) - real (length merged)) / real (total_original rm))
   \<and> (length merged \<le> total_original rm \<longrightarrow>
        0 \<le> calculate_dedup_ratio rm merged \<and> calculate_dedup_ratio rm merged \<le> 1)
   \<and> 0 \<le> calculate_dedup_ratio rm (fst (merge_and_deduplicate_results E rm lg))
   \<and> calculate_dedup_ratio rm (fst (merge_and_deduplicate_results E rm lg)) \<le> 1
   \<and> (case deduplication_ratio (search_multiple_databases E bs databases parallel lg) of
        Some r \<Rightarrow> 0 \<le> r \<and> r \<le> 1
      | None \<Rightarrow> True)"
proof -
  have formula: "calculate_dedup_ratio rm merged =
     (if total_original rm = 0 then 0
      else (real (total_original rm) - real (length merged)) / real (total_original rm))"
    by (simp add: calculate_dedup_ratio_def Let_def)
  have run: "0 \<le> calculate_dedup_ratio rm (fst (merge_and_deduplicate_results E rm lg))
     \<and> calculate_dedup_ratio rm (fst (merge_and_deduplicate_results E rm lg)) \<le> 1"
    by (rule dedup_ratio_bounds) (rule merged_length_le_total)
  have summary: "(case deduplication_ratio (search_multiple_databases E bs databases parallel lg) of
        Some r \<Rightarrow> 0 \<le> r \<and> r \<le> 1 | None \<Rightarrow> True)"
    using run_ratio[of E bs databases parallel lg] by (simp split: option.splits)
  from formula run summary dedup_ratio_bounds[of merged rm] show ?thesis by blast
qed

text \<open>
  Three records found, two kept: the ratio is a third. No record found: the ratio is 0.
\<close>

theorem dedup_ratio_formula_and_range_witness:
  "calculate_dedup_ratio
     [(''twpat'', \<lparr>status = ''completed'', error = None, total_found = 3,
                   results = [PDict [], PDict [], PDict []], downloaded_files = []\<rparr>)]
     [[], []] = 1 / 3
   \<and> calculate_dedup_ratio [(''twpat'', failed_result ''timeout'')] [] = 0"
  using dedup_ratio_formula_and_range
    [of "[(''twpat'', \<lparr>status = ''completed'', error = None, total_found = 3,
                        results = [PDict [], PDict [], PDict []], downloaded_files = []\<rparr>)]"
        "[[], []]" sample_env "[]" Map.empty "[]" False]
    dedup_ratio_formula_and_range
    [of "[(''twpat'', failed_result ''timeout'')]" "[]" sample_env "[]" Map.empty "[]" False]
  by (simp add: total_original_def failed_result_def)

section \<open>Which ids get an entry\<close>

lemma parallel_collect_other:
  "bs db = None \<Longrightarrow> map_of (fst (fold (parallel_collect bs) ds st)) db = map_of (fst st) db"
proof (induction ds arbitrary: st)
  case Nil
  then show ?case by simp
next
  case (Cons d ds)
  have "map_of (fst (parallel_collect bs d st)) db = map_of (fst st) db"
    using Cons.prems
    by (cases "bs d") (auto simp: parallel_collect_def update_conv' split: backend_outcome.splits)
  with Cons.IH[OF Cons.prems, of "parallel_collect bs d st"] show ?case by simp
qed

text \<open>
  C1. The claim asks for a failed entry for an unregistered id in both modes. The
  sequential loop writes it (line 213); the parallel loop only logs the id (line 149), so
  in parallel mode the result map of a completed run has no entry for it, whatever the
  order of completion.
\<close>

theorem parallel_run_has_no_entry_for_unregistered_id:
  "bs db = None \<Longrightarrow> databases \<noteq> [] \<Longrightarrow>
   (case results_by_database (search_multiple_databases E bs databases True lg) of
      Some m \<Rightarrow> map_of m db = None
    | None \<Rightarrow> False)"
  by (simp add: search_multiple_databases_def search_parallel_def Let_def completed_summary_def
        results_after_merge_no_entry parallel_collect_other)

text \<open>
  The ids \<^verbatim>\<open>twpat\<close> and \<^verbatim>\<open>epo\<close> are requested and only \<^verbatim>\<open>twpat\<close> is registered: the
  parallel run has no entry for \<^verbatim>\<open>epo\<close>, the sequential run has the failed one.
\<close>

theorem parallel_run_has_no_entry_for_unregistered_id_witness:
  "(case results_by_database
           (search_multiple_databases sample_env
              [''twpat'' \<mapsto> Returns \<lparr>status = ''completed'', error = None, total_found = 0,
                                     results = [], downloaded_files = []\<rparr>]
              [''twpat'', ''epo''] True []) of
      Some m \<Rightarrow> map_of m ''epo'' = None
    | None \<Rightarrow> False)
   \<and> (case results_by_database
           (search_multiple_databases sample_env
              [''twpat'' \<mapsto> Returns \<lparr>status = ''completed'', error = None, total_found = 0,
                                     results = [], downloaded_files = []\<rparr>]
              [''twpat'', ''epo''] False []) of
      Some m \<Rightarrow> map_of m ''epo'' = Some (failed_result unsupported_database)
    | None \<Rightarrow> False)"
  using parallel_run_has_no_entry_for_unregistered_id
    [of "[''twpat'' \<mapsto> Returns \<lparr>status = ''completed'', error = None, total_found = 0,
                                 results = [], downloaded_files = []\<rparr>]"
        "''epo''" "[''twpat'', ''epo'']" sample_env "[]"]
  by (simp add: search_multiple_databases_def search_sequential_def sequential_step_def
        completed_summary_def results_after_merge_def final_contents_def failed_result_def Let_def)

text \<open>
  C2. For the empty list of databases the sequential run completes with all counts 0, the
  ratio 0 and an empty result map, as the claim says. The parallel run does not: the
  thread pool refuses zero workers, and the run ends failed, without a ratio and without
  a result map.
\<close>

theorem empty_request_parallel_fails_sequential_completes:
  "search_multiple_databases E bs [] True lg =
     failed_summary [] (ValueError ''max_workers must be greater than 0'')
       (lg @ [RunStarted [], ParallelMode])
   \<and> run_status (search_multiple_databases E bs [] True lg) = ''failed''
   \<and> deduplication_ratio (search_multiple_databases E bs [] True lg) = None
   \<and> results_by_database (search_multiple_databases E bs [] True lg) = None
   \<and> run_status (search_multiple_databases E bs [] False lg) = ''completed''
   \<and> run_total_found (search_multiple_databases E bs [] False lg) = 0
   \<and> merged_count (search_multiple_databases E bs [] False lg) = 0
   \<and> deduplication_ratio (search_multiple_databases E bs [] False lg) = Some 0
   \<and> results_by_database (search_multiple_databases E bs [] False lg) = Some []"
  by (simp add: search_multiple_databases_def search_parallel_def search_sequential_def
        failed_summary_def completed_summary_def merge_and_deduplicate_results_def
        deduplicate_patents_def calculate_dedup_ratio_def total_original_def
        results_after_merge_def final_contents_def Let_def)

section \<open>Dictionaries\<close>

lemma dict_get_dict_set:
  "dict_get (dict_set d k v) k' dflt = (if k' = k then v else dict_get d k' dflt)"
  by (simp add: dict_get_def dict_set_def update_conv')

lemma dict_get_cong_map_of: "map_of a k = map_of b k \<Longrightarrow> dict_get a k dflt = dict_get b k dflt"
  by (simp add: dict_get_def)

section \<open>The decimal form of an integer\<close>

lemma nat_str_eval:
  "nat_str 0 = ''0''"
  "nat_str 1 = ''1''"
  "nat_str (Suc 0) = ''1''"
  "nat_str (numeral k) =
     (if numeral k < (10::nat) then [digits ! numeral k]
      else nat_str (numeral k div 10) @ [digits ! (numeral k mod 10)])"
  by (subst nat_str.simps, simp add: digits_def)+

lemma nat_str_not_Nil: "nat_str n \<noteq> []"
  by (subst nat_str.simps) simp

lemma last_nat_str: "last (nat_str n) = digits ! (n mod 10)"
  by (subst nat_str.simps) simp

lemma butlast_nat_str: "butlast (nat_str n) = (if n < 10 then [] else nat_str (n div 10))"
  by (subst nat_str.simps) simp

lemma distinct_digits: "distinct digits" and length_digits: "length digits = 10"
  by (simp_all add: digits_def)

lemma digit_inj: "i < 10 \<Longrightarrow> j < 10 \<Longrightarrow> digits ! i = digits ! j \<Longrightarrow> i = j"
  using distinct_digits length_digits by (simp add: nth_eq_iff_index_eq)

lemma nat_str_inj: "nat_str n = nat_str m \<Longrightarrow> n = m"
proof (induction n arbitrary: m rule: less_induct)
  case (less n)
  from less.prems have "last (nat_str n) = last (nat_str m)" by simp
  then have md: "n mod 10 = m mod 10"
    by (simp add: last_nat_str digit_inj)
  from less.prems have bl: "butlast (nat_str n) = butlast (nat_str m)" by simp
  show ?case
  proof (cases "n < 10")
    case True
    with bl nat_str_not_Nil[of "m div 10"] have "m < 10"
      by (auto simp: butlast_nat_str split: if_splits)
    with True md show ?thesis by simp
  next
    case False
    with bl have m: "\<not> m < 10" and eq: "nat_str (n div 10) = nat_str (m div 10)"
      using nat_str_not_Nil[of "n div 10"]
      by (auto simp: butlast_nat_str split: if_splits)
    from False have "n div 10 < n" by simp
    from less.IH[OF this eq] have "n div 10 = m div 10" .
    with md show ?thesis
      by (metis div_mult_mod_eq)
  qed
qed

lemma nat_str_digits: "set (nat_str n) \<subseteq> set digits"
proof (induction n rule: less_induct)
  case (less n)
  show ?case
  proof (cases "n < 10")
    case True
    then show ?thesis
      by (subst nat_str.simps) (simp add: length_digits)
  next
    case False
    then have "n div 10 < n" by simp
    from less.IH[OF this] False show ?thesis
      by (subst nat_str.simps) (simp add: length_digits)
  qed
qed

lemma int_str_inj: "int_str i = int_str j \<Longrightarrow> i = j"
proof -
  assume eq: "int_str i = int_str j"
  have nd: "CHR ''-'' \<notin> set digits" by (simp add: digits_def)
  have no_minus: "\<And>n. hd (nat_str n) \<noteq> CHR ''-''"
  proof -
    fix n
    have "hd (nat_str n) \<in> set (nat_str n)" using nat_str_not_Nil by simp
    with nat_str_digits[of n] nd show "hd (nat_str n) \<noteq> CHR ''-''" by auto
  qed
  show "i = j"
  proof (cases "i < 0")
    case True
    show ?thesis
    proof (cases "j < 0")
      case True
      with \<open>i < 0\<close> eq have "nat_str (nat (- i)) = nat_str (nat (- j))"
        by (simp add: int_str_def)
      then have "nat (- i) = nat (- j)" by (rule nat_str_inj)
      with True \<open>i < 0\<close> show ?thesis by simp
    next
      case False
      with True eq have "CHR ''-'' # nat_str (nat (- i)) = nat_str (nat j)"
        by (simp add: int_str_def)
      then have "hd (nat_str (nat j)) = CHR ''-''" by (metis list.sel(1))
      with no_minus show ?thesis by blast
    qed
  next
    case False
    show ?thesis
    proof (cases "j < 0")
      case True
      with False eq have "nat_str (nat i) = CHR ''-'' # nat_str (nat (- j))"
        by (simp add: int_str_def)
      then have "hd (nat_str (nat i)) = CHR ''-''" by simp
      with no_minus show ?thesis by blast
    next
      case False
      with \<open>\<not> i < 0\<close> eq have "nat_str (nat i) = nat_str (nat j)"
        by (simp add: int_str_def)
      then have "nat i = nat j" by (rule nat_str_inj)
      with False \<open>\<not> i < 0\<close> show ?thesis by simp
    qed
  qed
qed

section \<open>The fingerprint of a record with string keys\<close>

lemma hash_string_ok:
  "string_keys_ok p \<Longrightarrow> hash_string p = Inr (normalized_number p @ ''|'' @ normalized_title p)"
  by (auto simp: string_keys_ok_def hash_string_def normalized_number_def normalized_title_def
        split: pyval.splits)

lemma hash_string_not_ok: "\<not> string_keys_ok p \<Longrightarrow> hash_string p = Inl AttributeError"
  by (auto simp: string_keys_ok_def hash_string_def split: pyval.splits)

lemma fingerprint_ok:
  "string_keys_ok p \<Longrightarrow>
     calculate_patent_hash E p = md5_hexdigest E (normalized_number p @ ''|'' @ normalized_title p)"
  by (simp add: calculate_patent_hash_def hash_string_ok)

lemma string_keys_ok_cong:
  "map_of a ''patent_number'' = map_of b ''patent_number'' \<Longrightarrow>
   map_of a ''title'' = map_of b ''title'' \<Longrightarrow> string_keys_ok a = string_keys_ok b"
  by (simp add: string_keys_ok_def dict_get_def)

lemma normalized_cong:
  "map_of a ''patent_number'' = map_of b ''patent_number'' \<Longrightarrow>
     normalized_number a = normalized_number b"
  "map_of a ''title'' = map_of b ''title'' \<Longrightarrow> normalized_title a = normalized_title b"
  by (simp_all add: normalized_number_def normalized_title_def dict_get_def)

section \<open>The bar between number and title\<close>

lemma takeWhile_up_to: "c \<notin> set a \<Longrightarrow> takeWhile (\<lambda>x. x \<noteq> c) (a @ c # b) = a"
  by (induction a) auto

lemma append_bar_eq:
  assumes "c \<notin> set a" and "c \<notin> set a'"
  shows "(a @ c # b = a' @ c # b') = (a = a' \<and> b = b')"
proof
  assume eq: "a @ c # b = a' @ c # b'"
  have "takeWhile (\<lambda>x. x \<noteq> c) (a @ c # b) = a"
    using assms(1) by (rule takeWhile_up_to)
  moreover have "takeWhile (\<lambda>x. x \<noteq> c) (a' @ c # b') = a'"
    using assms(2) by (rule takeWhile_up_to)
  ultimately have "a = a'" using eq by simp
  with eq show "a = a' \<and> b = b'" by simp
qed simp

lemma dropWhile_keeps_other: "\<not> P c \<Longrightarrow> (c \<in> set (dropWhile P xs)) = (c \<in> set xs)"
  by (induction xs) auto

lemma py_strip_keeps_other: "\<not> is_space c \<Longrightarrow> (c \<in> set (py_strip s)) = (c \<in> set s)"
  by (simp add: py_strip_def dropWhile_keeps_other)

lemma char_upper_bar:
  "(char_upper c = CHR ''|'') = (c = CHR ''|'')"
  "(CHR ''|'' = char_upper c) = (c = CHR ''|'')"
  by (auto simp: char_upper_def ascii_lowercase_def ascii_uppercase_def split: if_splits)

lemma py_upper_bar: "(CHR ''|'' \<in> set (py_upper s)) = (CHR ''|'' \<in> set s)"
  by (induction s) (auto simp: py_upper_def char_upper_bar)

lemma py_replace_keeps_other:
  "old \<noteq> [] \<Longrightarrow> c \<notin> set old \<Longrightarrow> c \<notin> set new \<Longrightarrow>
     (c \<in> set (py_replace old new s)) = (c \<in> set s)"
proof (induction old new s rule: py_replace.induct)
  case (1 old new)
  then show ?case by simp
next
  case (2 old new x xs)
  show ?case
  proof (cases "take (length old) (x # xs) = old")
    case True
    have "x # xs = take (length old) (x # xs) @ drop (length old) (x # xs)" by simp
    also have "\<dots> = old @ drop (length old - 1) xs"
      using True "2.prems"(1) by (cases old) simp_all
    finally have "set (x # xs) = set old \<union> set (drop (length old - 1) xs)"
      by (metis set_append)
    with "2.prems"(2) have "(c \<in> set (x # xs)) = (c \<in> set (drop (length old - 1) xs))"
      by auto
    with "2.IH"(2)[OF "2.prems"(1) True "2.prems"] True "2.prems"(1,3) show ?thesis by simp
  next
    case False
    with "2.IH"(3)[OF "2.prems"(1) False "2.prems"] "2.prems"(1) show ?thesis by simp
  qed
qed

text \<open>The normalization neither removes a bar from the number nor adds one.\<close>

lemma normalize_number_bar: "(CHR ''|'' \<in> set (normalize_number n)) = (CHR ''|'' \<in> set n)"
  by (simp add: normalize_number_def py_replace_keeps_other py_upper_bar py_strip_keeps_other
        is_space_def)

lemma int_str_eq_iff: "(int_str i = int_str j) = (i = j)"
  using int_str_inj by blast

text \<open>
  C4, as amended. For records whose number and title are strings (or missing), the
  fingerprint is the digest of the normalized number, a bar and the normalized title, so
  records that agree on both have the same fingerprint. When neither normalized number
  contains a bar (by \<open>normalize_number_bar\<close>: when neither number does), the two strings
  that are hashed are equal exactly when the normalized numbers and the normalized titles
  are, and so are the fingerprints unless the two strings are a collision of the digest.
  The fingerprint does not read any other field: two records that agree on the keys
  \<^verbatim>\<open>patent_number\<close> and \<^verbatim>\<open>title\<close> have the same fingerprint however their other fields
  differ or are ordered, and assigning any other key leaves it unchanged.
\<close>

theorem fingerprint_depends_on_number_and_title_only:
  assumes "string_keys_ok a" and "string_keys_ok b"
  shows "calculate_patent_hash E a
           = md5_hexdigest E (normalized_number a @ ''|'' @ normalized_title a)
       \<and> (normalized_number a = normalized_number b \<and> normalized_title a = normalized_title b
            \<longrightarrow> calculate_patent_hash E a = calculate_patent_hash E b)
       \<and> (CHR ''|'' \<notin> set (normalized_number a) \<and> CHR ''|'' \<notin> set (normalized_number b)
            \<longrightarrow> (hash_string a = hash_string b) =
                   (normalized_number a = normalized_number b \<and>
                    normalized_title a = normalized_title b))
       \<and> (CHR ''|'' \<notin> set (normalized_number a) \<and> CHR ''|'' \<notin> set (normalized_number b) \<and>
          (md5_hexdigest E (normalized_number a @ ''|'' @ normalized_title a)
             = md5_hexdigest E (normalized_number b @ ''|'' @ normalized_title b)
           \<longrightarrow> normalized_number a @ ''|'' @ normalized_title a
                 = normalized_number b @ ''|'' @ normalized_title b)
            \<longrightarrow> (calculate_patent_hash E a = calculate_patent_hash E b) =
                   (normalized_number a = normalized_number b \<and>
                    normalized_title a = normalized_title b))
       \<and> (map_of a ''patent_number'' = map_of b ''patent_number'' \<and>
          map_of a ''title'' = map_of b ''title''
            \<longrightarrow> calculate_patent_hash E a = calculate_patent_hash E b)
       \<and> (k \<noteq> ''patent_number'' \<and> k \<noteq> ''title''
            \<longrightarrow> calculate_patent_hash E (dict_set a k v) = calculate_patent_hash E a)"
proof -
  let ?na = "normalized_number a" and ?ta = "normalized_title a"
  let ?nb = "normalized_number b" and ?tb = "normalized_title b"
  have fa: "calculate_patent_hash E a = md5_hexdigest E (?na @ ''|'' @ ?ta)"
    using assms(1) by (rule fingerprint_ok)
  have fb: "calculate_patent_hash E b = md5_hexdigest E (?nb @ ''|'' @ ?tb)"
    using assms(2) by (rule fingerprint_ok)
  have same: "calculate_patent_hash E a = calculate_patent_hash E b"
    if "?na = ?nb \<and> ?ta = ?tb"
    using that by (simp add: fa fb)
  have strings: "(?na @ ''|'' @ ?ta = ?nb @ ''|'' @ ?tb) = (?na = ?nb \<and> ?ta = ?tb)"
    if "CHR ''|'' \<notin> set ?na \<and> CHR ''|'' \<notin> set ?nb"
    using that append_bar_eq[of "CHR ''|''" ?na ?nb ?ta ?tb] by simp
  have hs: "(hash_string a = hash_string b) = (?na = ?nb \<and> ?ta = ?tb)"
    if "CHR ''|'' \<notin> set ?na \<and> CHR ''|'' \<notin> set ?nb"
    using strings[OF that] by (simp add: hash_string_ok assms)
  have conv: "(calculate_patent_hash E a = calculate_patent_hash E b) = (?na = ?nb \<and> ?ta = ?tb)"
    if h: "CHR ''|'' \<notin> set ?na \<and> CHR ''|'' \<notin> set ?nb \<and>
          (md5_hexdigest E (?na @ ''|'' @ ?ta) = md5_hexdigest E (?nb @ ''|'' @ ?tb)
           \<longrightarrow> ?na @ ''|'' @ ?ta = ?nb @ ''|'' @ ?tb)"
  proof
    assume "calculate_patent_hash E a = calculate_patent_hash E b"
    with h have "?na @ ''|'' @ ?ta = ?nb @ ''|'' @ ?tb" by (simp add: fa fb)
    with strings h show "?na = ?nb \<and> ?ta = ?tb" by blast
  next
    assume "?na = ?nb \<and> ?ta = ?tb"
    then show "calculate_patent_hash E a = calculate_patent_hash E b" by (rule same)
  qed
  have keys: "calculate_patent_hash E a = calculate_patent_hash E b"
    if "map_of a ''patent_number'' = map_of b ''patent_number'' \<and>
        map_of a ''title'' = map_of b ''title''"
    using that normalized_cong[of a b] by (simp add: fa fb)
  have other: "calculate_patent_hash E (dict_set a k v) = calculate_patent_hash E a"
    if k: "k \<noteq> ''patent_number'' \<and> k \<noteq> ''title''"
  proof -
    from k have m: "map_of (dict_set a k v) ''patent_number'' = map_of a ''patent_number''"
      "map_of (dict_set a k v) ''title'' = map_of a ''title''"
      by (auto simp: dict_set_def update_conv')
    with assms(1) have "string_keys_ok (dict_set a k v)"
      using string_keys_ok_cong by blast
    with m normalized_cong[of "dict_set a k v" a] show ?thesis
      by (simp add: fingerprint_ok fa)
  qed
  from fa same hs conv keys other show ?thesis by blast
qed

lemma normalize_number_examples:
  "normalize_number ''US1234567'' = ''1234567''"
  "normalize_number ''1234567'' = ''1234567''"
  "normalize_title ''Widget'' = ''widget''"
  "normalize_title ''widget '' = ''widget''"
  by (simp_all add: normalize_number_def normalize_title_def py_strip_def py_upper_def
        py_lower_def char_upper_def char_lower_def is_space_def ascii_lowercase_def
        ascii_uppercase_def)

lemma normalize_number_other_example: "normalize_number ''TW-7654321'' = ''7654321''"
  by (simp add: normalize_number_def py_strip_def py_upper_def char_upper_def is_space_def
        ascii_lowercase_def ascii_uppercase_def)

text \<open>
  The scenario of the spec: number \<^verbatim>\<open>US1234567\<close> with title \<^verbatim>\<open>Widget\<close> and number
  \<^verbatim>\<open>1234567\<close> with title \<^verbatim>\<open>widget \<close> (and different abstracts) have one fingerprint,
  the digest of \<^verbatim>\<open>1234567|widget\<close>. The number \<^verbatim>\<open>TW-7654321\<close> with the title
  \<^verbatim>\<open>Widget\<close> has another, the digest being the identity here.
\<close>

theorem fingerprint_depends_on_number_and_title_only_witness:
  "calculate_patent_hash sample_env
      [(''patent_number'', PStr ''US1234567''), (''title'', PStr ''Widget''),
       (''abstract'', PStr ''A gadget.'')]
   = calculate_patent_hash sample_env
      [(''abstract'', PNone), (''title'', PStr ''widget ''), (''patent_number'', PStr ''1234567'')]
   \<and> calculate_patent_hash sample_env
      [(''patent_number'', PStr ''US1234567''), (''title'', PStr ''Widget''),
       (''abstract'', PStr ''A gadget.'')]
     = md5_hexdigest sample_env ''1234567|widget''
   \<and> calculate_patent_hash sample_env
      [(''patent_number'', PStr ''US1234567''), (''title'', PStr ''Widget''),
       (''abstract'', PStr ''A gadget.'')]
     \<noteq> calculate_patent_hash sample_env
      [(''patent_number'', PStr ''TW-7654321''), (''title'', PStr ''Widget'')]"
proof -
  let ?a = "[(''patent_number'', PStr ''US1234567''), (''title'', PStr ''Widget''),
             (''abstract'', PStr ''A gadget.'')]"
  let ?b = "[(''abstract'', PNone), (''title'', PStr ''widget ''),
             (''patent_number'', PStr ''1234567'')]"
  let ?c = "[(''patent_number'', PStr ''TW-7654321''), (''title'', PStr ''Widget'')]"
  have ka: "string_keys_ok ?a" and kb: "string_keys_ok ?b" and kc: "string_keys_ok ?c"
    by (simp_all add: string_keys_ok_def dict_get_def)
  have n: "normalized_number ?a = ''1234567''" "normalized_title ?a = ''widget''"
    "normalized_number ?b = ''1234567''" "normalized_title ?b = ''widget''"
    "normalized_number ?c = ''7654321''" "normalized_title ?c = ''widget''"
    by (simp_all add: normalized_number_def normalized_title_def dict_get_def
          normalize_number_examples normalize_number_other_example)
  note ab = fingerprint_depends_on_number_and_title_only
              [OF ka kb, where E = sample_env and k = "''abstract''" and v = PNone]
  note ac = fingerprint_depends_on_number_and_title_only
              [OF ka kc, where E = sample_env and k = "''abstract''" and v = PNone]
  from ab[THEN conjunct2, THEN conjunct1]
  have 1: "calculate_patent_hash sample_env ?a = calculate_patent_hash sample_env ?b"
    by (simp only: n)
  from ab[THEN conjunct1]
  have 2: "calculate_patent_hash sample_env ?a = md5_hexdigest sample_env ''1234567|widget''"
    by (simp only: n) simp
  from ac[THEN conjunct2, THEN conjunct2, THEN conjunct2, THEN conjunct1]
  have 3: "calculate_patent_hash sample_env ?a \<noteq> calculate_patent_hash sample_env ?c"
    by (simp only: n sample_env_simps) simp
  from 1 2 3 show ?thesis by (intro conjI)
qed

text \<open>
  Against C4 as stated. The number \<^verbatim>\<open>1|2\<close> with the title \<^verbatim>\<open>3\<close> and the number \<^verbatim>\<open>1\<close>
  with the title \<^verbatim>\<open>2|3\<close> give the same hash string \<^verbatim>\<open>1|2|3\<close>, hence the same
  fingerprint under every digest, while neither the normalized numbers nor the
  normalized titles are equal (the code's, and the spec's). And a record whose number is
  the integer 5 takes the fallback \<^verbatim>\<open>str(hash(str(patent)))\<close>, which reads every field:
  with the text of the record for \<^verbatim>\<open>str\<close> and a hash that tells texts of different
  lengths apart, another abstract gives another fingerprint.
\<close>

theorem fingerprint_equal_for_different_keys:
  "(\<forall>E. calculate_patent_hash E [(''patent_number'', PStr ''1|2''), (''title'', PStr ''3'')]
        = calculate_patent_hash E [(''patent_number'', PStr ''1''), (''title'', PStr ''2|3'')])
   \<and> normalized_number [(''patent_number'', PStr ''1|2''), (''title'', PStr ''3'')]
       \<noteq> normalized_number [(''patent_number'', PStr ''1''), (''title'', PStr ''2|3'')]
   \<and> normalized_title [(''patent_number'', PStr ''1|2''), (''title'', PStr ''3'')]
       \<noteq> normalized_title [(''patent_number'', PStr ''1''), (''title'', PStr ''2|3'')]
   \<and> spec_normalized_number ''1|2'' \<noteq> spec_normalized_number ''1''
   \<and> spec_normalized_title ''3'' \<noteq> spec_normalized_title ''2|3''
   \<and> calculate_patent_hash sample_env
        [(''patent_number'', PInt 5), (''title'', PStr ''t''), (''abstract'', PStr ''x'')]
       \<noteq> calculate_patent_hash sample_env
        (dict_set [(''patent_number'', PInt 5), (''title'', PStr ''t''), (''abstract'', PStr ''x'')]
           ''abstract'' (PStr ''xy''))"
  by (simp add: calculate_patent_hash_def hash_string_def dict_get_def normalized_number_def
        normalized_title_def normalize_number_def normalize_title_def py_strip_def py_upper_def
        py_lower_def char_upper_def char_lower_def is_space_def ascii_lowercase_def
        ascii_uppercase_def spec_normalized_number_def spec_normalized_title_def is_alnum_def
        digits_def dict_set_def int_str_eq_iff sample_env_def)

section \<open>Replacing in a string\<close>

lemma py_replace_absent:
  "old \<noteq> [] \<Longrightarrow> \<not> occurs old s \<Longrightarrow> py_replace old new s = s"
  by (induction s) auto

lemma py_replace_prefix:
  assumes "old \<noteq> []"
  shows "py_replace old new (old @ s) = new @ py_replace old new s"
proof -
  from assms obtain c cs where old: "old = c # cs" by (cases old) auto
  have "py_replace (c # cs) new (c # (cs @ s)) = new @ py_replace (c # cs) new s"
    by simp
  then show ?thesis by (simp add: old)
qed

lemma py_replace_char: "py_replace [c] [] s = filter (\<lambda>x. x \<noteq> c) s"
  by (induction s) auto

lemma remove_hyphens_and_spaces:
  "py_replace '' '' [] (py_replace ''-'' [] s) = filter (\<lambda>c. c \<noteq> CHR ''-'' \<and> c \<noteq> CHR '' '') s"
  by (simp add: py_replace_char conj_commute)

lemma normalize_number_leading_code:
  assumes "py_upper (py_strip n) = pre @ rest"
    and "pre = [] \<or> pre = ''US'' \<or> pre = ''TW''"
    and "\<not> occurs ''US'' rest" and "\<not> occurs ''TW'' rest"
  shows "normalize_number n = filter (\<lambda>c. c \<noteq> CHR ''-'' \<and> c \<noteq> CHR '' '') rest"
proof -
  have "py_replace ''TW'' [] (py_replace ''US'' [] (pre @ rest)) = rest"
  proof -
    consider "pre = []" | "pre = ''US''" | "pre = ''TW''" using assms(2) by blast
    then show ?thesis
    proof cases
      case 1
      with assms(3,4) show ?thesis by (simp add: py_replace_absent)
    next
      case 2
      have "py_replace ''US'' [] (''US'' @ rest) = py_replace ''US'' [] rest"
        using py_replace_prefix[of "''US''" "[]" rest] by simp
      with 2 assms(3,4) show ?thesis by (simp add: py_replace_absent)
    next
      case 3
      from assms(3) have "\<not> occurs ''US'' (''TW'' @ rest)" by simp
      then have "py_replace ''US'' [] (''TW'' @ rest) = ''TW'' @ rest"
        by (intro py_replace_absent) simp_all
      moreover have "py_replace ''TW'' [] (''TW'' @ rest) = py_replace ''TW'' [] rest"
        using py_replace_prefix[of "''TW''" "[]" rest] by simp
      ultimately show ?thesis using 3 assms(4) by (simp add: py_replace_absent)
    qed
  qed
  then show ?thesis
    unfolding normalize_number_def assms(1) by (simp only: remove_hyphens_and_spaces)
qed

text \<open>
  C3, as amended. The number is trimmed and uppercased. When the country codes "US" and
  "TW" occur in it at most once, as its leading characters, that prefix is removed; then
  the hyphens and the spaces, and only these, are removed, so every other character that
  is not alphanumeric stays. The title is trimmed and lowercased. The fingerprint is the
  digest of the number, a bar and the title. A missing number or title counts as the
  empty string.
\<close>

theorem fingerprint_of_number_with_leading_code:
  assumes "dict_get p ''patent_number'' (PStr []) = PStr n"
    and "dict_get p ''title'' (PStr []) = PStr t"
    and "py_upper (py_strip n) = pre @ rest"
    and "pre = [] \<or> pre = ''US'' \<or> pre = ''TW''"
    and "\<not> occurs ''US'' rest" and "\<not> occurs ''TW'' rest"
  shows "calculate_patent_hash E p =
           md5_hexdigest E (filter (\<lambda>c. c \<noteq> CHR ''-'' \<and> c \<noteq> CHR '' '') rest
                              @ ''|'' @ py_lower (py_strip t))"
  using assms(1,2) normalize_number_leading_code[OF assms(3-6)]
  by (simp add: calculate_patent_hash_def hash_string_def normalize_title_def)

text \<open>
  The number \<^verbatim>\<open>us 1,234-567\<close> with the title \<^verbatim>\<open>  Widget \<close>: the string that is hashed
  is \<^verbatim>\<open>1,234567|widget\<close>; the comma stays.
\<close>

theorem fingerprint_of_number_with_leading_code_witness:
  "calculate_patent_hash sample_env
     [(''patent_number'', PStr ''us 1,234-567''), (''title'', PStr ''  Widget '')]
   = ''1,234567|widget''"
proof -
  have u: "py_upper (py_strip ''us 1,234-567'') = ''US'' @ '' 1,234-567''"
    by (simp add: py_strip_def py_upper_def char_upper_def is_space_def ascii_lowercase_def
          ascii_uppercase_def)
  have l: "py_lower (py_strip ''  Widget '') = ''widget''"
    by (simp add: py_strip_def py_lower_def char_lower_def is_space_def ascii_lowercase_def
          ascii_uppercase_def)
  have g: "dict_get [(''patent_number'', PStr ''us 1,234-567''), (''title'', PStr ''  Widget '')]
             ''patent_number'' (PStr []) = PStr ''us 1,234-567''"
    "dict_get [(''patent_number'', PStr ''us 1,234-567''), (''title'', PStr ''  Widget '')]
             ''title'' (PStr []) = PStr ''  Widget ''"
    by (simp_all add: dict_get_def)
  have o: "\<not> occurs ''US'' '' 1,234-567''" "\<not> occurs ''TW'' '' 1,234-567''"
    by simp_all
  show ?thesis
    using fingerprint_of_number_with_leading_code[OF g u _ o, of sample_env]
    by (simp add: l sample_env_simps)
qed

text \<open>
  Against C3 as stated. A slash is not alphanumeric and stays in the number; "US" inside
  the number is removed although it is no prefix; a code that only appears once the
  hyphen is gone is not removed. In each case the string the code hashes is not the one
  the spec's normalization gives.
\<close>

theorem hash_string_differs_from_spec_normalization:
  "hash_string [(''patent_number'', PStr ''1/2''), (''title'', PStr ''t'')] = Inr ''1/2|t''
   \<and> spec_hash_string ''1/2'' ''t'' = ''12|t''
   \<and> hash_string [(''patent_number'', PStr ''AUS1''), (''title'', PStr ''t'')] = Inr ''A1|t''
   \<and> spec_hash_string ''AUS1'' ''t'' = ''AUS1|t''
   \<and> hash_string [(''patent_number'', PStr ''U-S1''), (''title'', PStr ''t'')] = Inr ''US1|t''
   \<and> spec_hash_string ''U-S1'' ''t'' = ''1|t''"
  by (simp add: hash_string_def dict_get_def normalize_number_def normalize_title_def
        py_strip_def py_upper_def py_lower_def char_upper_def char_lower_def is_space_def
        ascii_lowercase_def ascii_uppercase_def spec_hash_string_def
        spec_normalized_number_def spec_normalized_title_def is_alnum_def digits_def)

section \<open>What a merge changes\<close>

lemma multi_valued_PList: "multi_valued v \<Longrightarrow> \<exists>xs. v = PList xs \<and> list_all hashable xs"
  by (cases v) auto

lemma py_union_lists:
  "list_all hashable xs \<Longrightarrow> list_all hashable ys \<Longrightarrow>
     py_union E (PList xs) (PList ys) = Inr (PList (set_iteration E (xs @ ys)))"
  by (simp add: py_union_def)

lemma union_field_lists:
  assumes "dict_get a k (PList []) = PList xs" and "dict_get b k (PList []) = PList ys"
    and "list_all hashable xs" and "list_all hashable ys"
  shows "union_field E k a b = Inr (dict_set a k (PList (set_iteration E (xs @ ys))))"
  using assms by (simp add: union_field_def py_union_lists)

lemma union_field_multi_valued:
  assumes "multi_valued (dict_get a k (PList []))" and "multi_valued (dict_get b k (PList []))"
  shows "\<exists>v. union_field E k a b = Inr (dict_set a k v)"
proof -
  from assms obtain xs ys where "dict_get a k (PList []) = PList xs" "list_all hashable xs"
    "dict_get b k (PList []) = PList ys" "list_all hashable ys"
    by (meson multi_valued_PList)
  then show ?thesis using union_field_lists by blast
qed

lemma union_field_changes_only_its_key:
  "union_field E k a b = Inr a' \<Longrightarrow> k' \<noteq> k \<Longrightarrow> map_of a' k' = map_of a k'"
  by (auto simp: union_field_def dict_set_def update_conv' split: sum.splits)

lemma fill_field_changes_only_its_key:
  "k' \<noteq> k \<Longrightarrow> map_of (fill_field k a b) k' = map_of a k'"
  by (simp add: fill_field_def dict_set_def update_conv')

lemma fill_field_value:
  "dict_get (fill_field k a b) k PNone =
     (if truthy (dict_get a k PNone) then dict_get a k PNone
      else if truthy (dict_get b k PNone) then dict_get b k PNone
      else dict_get a k PNone)"
  by (simp add: fill_field_def dict_get_dict_set)

lemma dict_get_map_of: "map_of a k = map_of b k \<Longrightarrow> dict_get a k d = dict_get b k d"
  by (simp add: dict_get_def)

text \<open>The keys \<^verbatim>\<open>_merge_patent_info\<close> can assign.\<close>

lemma merge_patent_info_frame:
  assumes "k \<notin> {''inventors'', ''applicants'', ''ipc_classes'', ''abstract'', ''claims'',
                 ''description'', ''images''}"
  shows "map_of (merge_patent_info E a b) k = map_of a k"
proof -
  have u: "\<And>k' x y x'. union_field E k' x y = Inr x' \<Longrightarrow> k \<noteq> k' \<Longrightarrow> map_of x' k = map_of x k"
    using union_field_changes_only_its_key by blast
  have f: "\<And>k' x y. k \<noteq> k' \<Longrightarrow> map_of (fill_field k' x y) k = map_of x k"
    using fill_field_changes_only_its_key by blast
  from assms show ?thesis
    by (auto simp: merge_patent_info_def merge_patent_info_try_def Let_def u f
          split: sum.splits)
qed

text \<open>
  When the three unions before the scalar fields succeed, each scalar field is filled
  forward, whether or not the union of the images succeeds afterwards.
\<close>

lemma merge_patent_info_scalar:
  assumes i: "union_field E ''inventors'' a b = Inr p1"
    and ap: "union_field E ''applicants'' p1 b = Inr p2"
    and ipc: "union_field E ''ipc_classes'' p2 b = Inr p3"
    and f: "f = ''abstract'' \<or> f = ''claims'' \<or> f = ''description''"
  shows "dict_get (merge_patent_info E a b) f PNone =
     (if truthy (dict_get a f PNone) then dict_get a f PNone
      else if truthy (dict_get b f PNone) then dict_get b f PNone
      else dict_get a f PNone)"
proof -
  define p4 where "p4 = fill_field ''abstract'' p3 b"
  define p5 where "p5 = fill_field ''claims'' p4 b"
  define p6 where "p6 = fill_field ''description'' p5 b"
  have m3: "map_of p3 f = map_of a f"
    using f union_field_changes_only_its_key[OF i, of f]
      union_field_changes_only_its_key[OF ap, of f]
      union_field_changes_only_its_key[OF ipc, of f] by auto
  have g3: "dict_get p3 f PNone = dict_get a f PNone"
    using m3 by (rule dict_get_map_of)
  have g6: "dict_get p6 f PNone =
     (if truthy (dict_get a f PNone) then dict_get a f PNone
      else if truthy (dict_get b f PNone) then dict_get b f PNone
      else dict_get a f PNone)"
  proof -
    consider "f = ''abstract''" | "f = ''claims''" | "f = ''description''" using f by blast
    then show ?thesis
    proof cases
      case 1
      have "dict_get p6 f PNone = dict_get p4 f PNone"
        unfolding p6_def p5_def using 1
        by (intro dict_get_map_of) (simp add: fill_field_changes_only_its_key)
      then show ?thesis using g3 1 by (simp add: p4_def fill_field_value)
    next
      case 2
      have "dict_get p6 f PNone = dict_get p5 f PNone"
        unfolding p6_def using 2
        by (intro dict_get_map_of) (simp add: fill_field_changes_only_its_key)
      moreover have "dict_get p4 f PNone = dict_get p3 f PNone"
        unfolding p4_def using 2
        by (intro dict_get_map_of) (simp add: fill_field_changes_only_its_key)
      ultimately show ?thesis using g3 2 by (simp add: p5_def fill_field_value)
    next
      case 3
      have "dict_get p5 f PNone = dict_get p3 f PNone"
        unfolding p5_def p4_def using 3
        by (intro dict_get_map_of) (simp add: fill_field_changes_only_its_key)
      then show ?thesis using g3 3 by (simp add: p6_def fill_field_value)
    qed
  qed
  have "map_of (merge_patent_info E a b) f = map_of p6 f"
  proof (cases "union_field E ''images'' p6 b")
    case (Inl e)
    with i ap ipc show ?thesis
      by (simp add: merge_patent_info_def merge_patent_info_try_def Let_def p6_def p5_def p4_def)
  next
    case (Inr p7)
    with i ap ipc have "merge_patent_info E a b = p7"
      by (simp add: merge_patent_info_def merge_patent_info_try_def Let_def p6_def p5_def p4_def)
    moreover have "map_of p7 f = map_of p6 f"
      using f union_field_changes_only_its_key[OF Inr, of f] by auto
    ultimately show ?thesis by simp
  qed
  then have "dict_get (merge_patent_info E a b) f PNone = dict_get p6 f PNone"
    by (rule dict_get_map_of)
  with g6 show ?thesis by simp
qed

lemma deduplicate_pair:
  assumes "calculate_patent_hash E a = calculate_patent_hash E b"
    and "union_field E ''source_databases'' a b = Inr a'"
  shows "deduplicate_patents E [a, b] = [merge_patent_info E a' b]"
  using assms by (simp add: deduplicate_patents_def Let_def)

lemma merge_into_skip:
  assumes "\<forall>x \<in> set A. \<not> (snd x \<and> calculate_patent_hash E (fst x) = h)"
  shows "merge_into E h new (A @ B) =
           (case merge_into E h new B of Inl e \<Rightarrow> Inl e | Inr B' \<Rightarrow> Inr (A @ B'))"
  using assms
proof (induction A)
  case Nil
  then show ?case by (simp split: sum.splits)
next
  case (Cons x A)
  obtain q k where x: "x = (q, k)" by (cases x)
  from Cons.prems x have n: "\<not> (k \<and> calculate_patent_hash E q = h)" by simp
  from Cons.prems have "\<forall>x \<in> set A. \<not> (snd x \<and> calculate_patent_hash E (fst x) = h)" by simp
  from Cons.IH[OF this] n x show ?case by (auto split: sum.splits)
qed

lemma merge_into_found:
  assumes "\<forall>x \<in> set A. \<not> (snd x \<and> calculate_patent_hash E (fst x) = h)"
    and "calculate_patent_hash E q = h"
    and "union_field E ''source_databases'' q new = Inr q'"
  shows "merge_into E h new (A @ (q, True) # B) = Inr (A @ (absorb E q new, True) # B)"
  using assms(2,3) by (simp add: merge_into_skip[OF assms(1)] absorb_def)

text \<open>
  C5, as amended. Let the fields \<^verbatim>\<open>source_databases\<close>, \<^verbatim>\<open>inventors\<close>, \<^verbatim>\<open>applicants\<close>
  and \<^verbatim>\<open>ipc_classes\<close> be lists of hashable values, or be missing, in the already-merged
  entry \<open>a\<close> and in the incoming record \<open>b\<close>. In the entry after the merge, each of
  \<^verbatim>\<open>abstract\<close>, \<^verbatim>\<open>claims\<close> and \<^verbatim>\<open>description\<close> has the value of \<open>a\<close> when that is
  non-empty, else the value of \<open>b\<close> when that is non-empty, else the value of \<open>a\<close>.
  When the two have the same fingerprint, this merged entry is what the pass over
  \<open>a\<close>, \<open>b\<close> returns, and what the inner loop puts in the place of \<open>a\<close> wherever
  \<open>a\<close> is the first kept record with the fingerprint of \<open>b\<close>.
\<close>

theorem scalar_fields_fill_forward:
  assumes "list_all (\<lambda>k. multi_valued (dict_get a k (PList [])) \<and>
                       multi_valued (dict_get b k (PList [])))
           [''source_databases'', ''inventors'', ''applicants'', ''ipc_classes'']"
    and "f = ''abstract'' \<or> f = ''claims'' \<or> f = ''description''"
  shows "dict_get (absorb E a b) f PNone =
           (if truthy (dict_get a f PNone) then dict_get a f PNone
            else if truthy (dict_get b f PNone) then dict_get b f PNone
            else dict_get a f PNone)
       \<and> (calculate_patent_hash E a = calculate_patent_hash E b \<longrightarrow>
            deduplicate_patents E [a, b] = [absorb E a b] \<and>
            (\<forall>A B. (\<forall>x \<in> set A. \<not> (snd x \<and>
                        calculate_patent_hash E (fst x) = calculate_patent_hash E b)) \<longrightarrow>
               merge_into E (calculate_patent_hash E b) b (A @ (a, True) # B)
                 = Inr (A @ (absorb E a b, True) # B)))"
proof -
  from assms(1) obtain a' where s: "union_field E ''source_databases'' a b = Inr a'"
    using union_field_multi_valued[of a "''source_databases''" b E] by auto
  have keep: "\<And>k d. k \<noteq> ''source_databases'' \<Longrightarrow> dict_get a' k d = dict_get a k d"
    using union_field_changes_only_its_key[OF s] by (intro dict_get_map_of) simp
  from assms(1) obtain p1 where i: "union_field E ''inventors'' a' b = Inr p1"
    using union_field_multi_valued[of a' "''inventors''" b E] by (auto simp: keep)
  have k1: "\<And>k d. k \<noteq> ''inventors'' \<Longrightarrow> dict_get p1 k d = dict_get a' k d"
    using union_field_changes_only_its_key[OF i] by (intro dict_get_map_of) simp
  from assms(1) obtain p2 where ap: "union_field E ''applicants'' p1 b = Inr p2"
    using union_field_multi_valued[of p1 "''applicants''" b E] by (auto simp: keep k1)
  have k2: "\<And>k d. k \<noteq> ''applicants'' \<Longrightarrow> dict_get p2 k d = dict_get p1 k d"
    using union_field_changes_only_its_key[OF ap] by (intro dict_get_map_of) simp
  from assms(1) obtain p3 where ipc: "union_field E ''ipc_classes'' p2 b = Inr p3"
    using union_field_multi_valued[of p2 "''ipc_classes''" b E] by (auto simp: keep k1 k2)
  have ab: "absorb E a b = merge_patent_info E a' b"
    using s by (simp add: absorb_def)
  from assms(2) have "dict_get a' f PNone = dict_get a f PNone"
    by (intro keep) auto
  with merge_patent_info_scalar[OF i ap ipc assms(2)]
  have law: "dict_get (absorb E a b) f PNone =
           (if truthy (dict_get a f PNone) then dict_get a f PNone
            else if truthy (dict_get b f PNone) then dict_get b f PNone
            else dict_get a f PNone)"
    by (simp add: ab)
  have pass: "deduplicate_patents E [a, b] = [absorb E a b]"
    if "calculate_patent_hash E a = calculate_patent_hash E b"
    using deduplicate_pair[OF that s] by (simp add: ab)
  have inner: "merge_into E (calculate_patent_hash E b) b (A @ (a, True) # B)
                 = Inr (A @ (absorb E a b, True) # B)"
    if "calculate_patent_hash E a = calculate_patent_hash E b"
      and "\<forall>x \<in> set A. \<not> (snd x \<and> calculate_patent_hash E (fst x) = calculate_patent_hash E b)"
    for A B
    using that(2,1) s by (rule merge_into_found)
  from law pass inner show ?thesis by blast
qed

text \<open>
  The scenario of the spec: backend A has the record with an empty abstract, backend B
  the same patent with the abstract \<^verbatim>\<open>A gadget.\<close>; the merged record has that abstract.
\<close>

theorem scalar_fields_fill_forward_witness:
  "\<exists>m. deduplicate_patents sample_env
          [[(''patent_number'', PStr ''US1234567''), (''title'', PStr ''Widget''),
            (''abstract'', PStr []), (''source_databases'', PList [PStr ''dbA''])],
           [(''patent_number'', PStr ''1234567''), (''title'', PStr ''widget ''),
            (''abstract'', PStr ''A gadget.''), (''source_databases'', PList [PStr ''dbB''])]]
        = [m]
      \<and> dict_get m ''abstract'' PNone = PStr ''A gadget.''"
proof -
  let ?a = "[(''patent_number'', PStr ''US1234567''), (''title'', PStr ''Widget''),
            (''abstract'', PStr []), (''source_databases'', PList [PStr ''dbA''])]"
  let ?b = "[(''patent_number'', PStr ''1234567''), (''title'', PStr ''widget ''),
            (''abstract'', PStr ''A gadget.''), (''source_databases'', PList [PStr ''dbB''])]"
  have h: "calculate_patent_hash sample_env ?a = calculate_patent_hash sample_env ?b"
    by (simp add: calculate_patent_hash_def hash_string_def dict_get_def
          normalize_number_examples)
  have l: "list_all (\<lambda>k. multi_valued (dict_get ?a k (PList [])) \<and>
                       multi_valued (dict_get ?b k (PList [])))
           [''source_databases'', ''inventors'', ''applicants'', ''ipc_classes'']"
    by (simp add: dict_get_def)
  have f: "''abstract'' = ''abstract'' \<or> ''abstract'' = ''claims'' \<or> ''abstract'' = ''description''"
    by simp
  note T = scalar_fields_fill_forward[OF l f, of sample_env]
  from T[THEN conjunct1]
  have "dict_get (absorb sample_env ?a ?b) ''abstract'' PNone = PStr ''A gadget.''"
    by (simp add: dict_get_def)
  moreover from T[THEN conjunct2, THEN mp, OF h, THEN conjunct1]
  have "deduplicate_patents sample_env [?a, ?b] = [absorb sample_env ?a ?b]" .
  ultimately show ?thesis by blast
qed

text \<open>
  Against C5 as stated. The first record has the value \<^verbatim>\<open>None\<close> under \<^verbatim>\<open>inventors\<close> (a
  JSON null) and an empty abstract; the second is the same patent with an abstract. The
  union of the inventors raises \<^verbatim>\<open>TypeError\<close>, the handler of \<^verbatim>\<open>_merge_patent_info\<close>
  ends the merge, and the abstract stays empty.
\<close>

theorem abstract_not_filled_after_failed_union:
  "\<forall>E. merge_patent_info_try E
          [(''patent_number'', PStr ''1''), (''title'', PStr ''t''), (''abstract'', PStr []),
           (''inventors'', PNone)]
          [(''patent_number'', PStr ''1''), (''title'', PStr ''t''),
           (''abstract'', PStr ''A gadget.'')]
        = (Some TypeError,
           [(''patent_number'', PStr ''1''), (''title'', PStr ''t''), (''abstract'', PStr []),
            (''inventors'', PNone)])
      \<and> (\<exists>m. deduplicate_patents E
               [[(''patent_number'', PStr ''1''), (''title'', PStr ''t''),
                 (''abstract'', PStr []), (''inventors'', PNone)],
                [(''patent_number'', PStr ''1''), (''title'', PStr ''t''),
                 (''abstract'', PStr ''A gadget.'')]] = [m]
             \<and> dict_get m ''abstract'' PNone = PStr [])"
  by (simp add: deduplicate_patents_def Let_def calculate_patent_hash_def hash_string_def
        merge_patent_info_def merge_patent_info_try_def union_field_def py_union_def
        dict_get_def dict_set_def)

section \<open>Failures of the merge step\<close>

lemma tag_patents_not_dict:
  "\<exists>v \<in> set vs. \<not> is_dict v \<Longrightarrow> tag_patents db vs = Inl TypeError"
  by (induction db vs rule: tag_patents.induct) (auto split: sum.splits)

lemma tag_patents_dicts:
  "\<forall>v \<in> set vs. is_dict v \<Longrightarrow> \<exists>ps. tag_patents db vs = Inr ps"
  by (induction db vs rule: tag_patents.induct) auto

lemma tag_patents_Inl: "tag_patents db vs = Inl e \<Longrightarrow> e = TypeError"
  by (induction db vs rule: tag_patents.induct) (auto split: sum.splits)

lemma collect_patents_Inl: "collect_patents rm = Inl e \<Longrightarrow> e = TypeError"
  by (induction rm rule: collect_patents.induct)
     (auto split: sum.splits if_splits dest: tag_patents_Inl)

lemma collect_patents_not_dict:
  assumes "\<exists>dr \<in> set rm. status (snd dr) = ''completed'' \<and>
             (\<exists>v \<in> set (results (snd dr)). \<not> is_dict v)"
  shows "collect_patents rm = Inl TypeError"
  using assms
proof (induction rm rule: collect_patents.induct)
  case 1
  then show ?case by simp
next
  case (2 db r rest)
  show ?case
  proof (cases "status r = ''completed''")
    case False
    with 2 show ?thesis by auto
  next
    case True
    show ?thesis
    proof (cases "\<exists>v \<in> set (results r). \<not> is_dict v")
      case True
      with \<open>status r = ''completed''\<close> tag_patents_not_dict[of "results r" db]
      show ?thesis by simp
    next
      case False
      then obtain ps where ps: "tag_patents db (results r) = Inr ps"
        using tag_patents_dicts[of "results r" db] by auto
      from False "2.prems" \<open>status r = ''completed''\<close>
      have "\<exists>dr \<in> set rest. status (snd dr) = ''completed'' \<and>
             (\<exists>v \<in> set (results (snd dr)). \<not> is_dict v)" by auto
      with "2.IH"(1)[OF True ps] have "collect_patents rest = Inl TypeError" by simp
      with True ps show ?thesis by simp
    qed
  qed
qed

section \<open>The records that reach the deduplication\<close>

lemma tag_patents_mem:
  "tag_patents db vs = Inr ps \<Longrightarrow> PDict kvs \<in> set vs \<Longrightarrow>
     dict_set kvs ''source_databases'' (PList [PStr db]) \<in> set ps"
  by (induction db vs arbitrary: ps rule: tag_patents.induct) (auto split: sum.splits)

lemma tag_patents_origin:
  "tag_patents db vs = Inr ps \<Longrightarrow> p \<in> set ps \<Longrightarrow>
     \<exists>kvs. PDict kvs \<in> set vs \<and> p = dict_set kvs ''source_databases'' (PList [PStr db])"
proof (induction db vs arbitrary: ps rule: tag_patents.induct)
  case (1 db)
  then show ?case by simp
next
  case (2 db kvs vs)
  from "2.prems"(1) obtain qs where t: "tag_patents db vs = Inr qs"
    and ps: "ps = dict_set kvs ''source_databases'' (PList [PStr db]) # qs"
    by (auto split: sum.splits)
  show ?case
  proof (cases "p = dict_set kvs ''source_databases'' (PList [PStr db])")
    case True
    then show ?thesis by (intro exI[of _ kvs]) simp
  next
    case False
    with "2.prems"(2) ps have "p \<in> set qs" by simp
    from "2.IH"[OF t this] show ?thesis by auto
  qed
qed simp_all

lemma collect_patents_mem:
  "collect_patents rm = Inr ps \<Longrightarrow> (db, r) \<in> set rm \<Longrightarrow> status r = ''completed'' \<Longrightarrow>
   PDict kvs \<in> set (results r) \<Longrightarrow>
     dict_set kvs ''source_databases'' (PList [PStr db]) \<in> set ps"
  by (induction rm arbitrary: ps rule: collect_patents.induct)
     (auto split: sum.splits if_splits dest: tag_patents_mem)

lemma collect_patents_origin:
  "collect_patents rm = Inr ps \<Longrightarrow> p \<in> set ps \<Longrightarrow>
     \<exists>db r kvs. (db, r) \<in> set rm \<and> status r = ''completed'' \<and> PDict kvs \<in> set (results r) \<and>
        p = dict_set kvs ''source_databases'' (PList [PStr db])"
proof (induction rm arbitrary: ps rule: collect_patents.induct)
  case 1
  then show ?case by simp
next
  case (2 db r rest)
  show ?case
  proof (cases "status r = ''completed''")
    case False
    with 2 show ?thesis by fastforce
  next
    case True
    with "2.prems"(1) obtain qs rs where t: "tag_patents db (results r) = Inr qs"
      and c: "collect_patents rest = Inr rs" and ps: "ps = qs @ rs"
      by (auto split: sum.splits)
    from "2.prems"(2) ps consider "p \<in> set qs" | "p \<in> set rs" by auto
    then show ?thesis
    proof cases
      case 1
      from tag_patents_origin[OF t 1] True show ?thesis by auto
    next
      case 2
      from "2.IH"(1)[OF True t c 2] show ?thesis by auto
    qed
  qed
qed

lemma collect_patents_dicts:
  assumes "\<forall>dr \<in> set rm. status (snd dr) = ''completed'' \<longrightarrow>
             (\<forall>v \<in> set (results (snd dr)). is_dict v)"
  shows "\<exists>ps. collect_patents rm = Inr ps"
proof (cases "collect_patents rm")
  case (Inr ps)
  then show ?thesis by simp
next
  case (Inl e)
  have "\<exists>dr \<in> set rm. status (snd dr) = ''completed'' \<and>
          (\<exists>v \<in> set (results (snd dr)). \<not> is_dict v)"
    using Inl
  proof (induction rm rule: collect_patents.induct)
    case 1
    then show ?case by simp
  next
    case (2 db r rest)
    show ?case
    proof (cases "status r = ''completed''")
      case False
      with 2 show ?thesis by auto
    next
      case True
      show ?thesis
      proof (cases "tag_patents db (results r)")
        case (Inl e')
        have "\<exists>v \<in> set (results r). \<not> is_dict v"
          using tag_patents_dicts[of "results r" db] Inl by auto
        with True show ?thesis by auto
      next
        case (Inr qs)
        with True "2.prems" have "collect_patents rest = Inl e"
          by (auto split: sum.splits)
        from "2.IH"(1)[OF True Inr this] show ?thesis by auto
      qed
    qed
  qed
  with assms show ?thesis by blast
qed

section \<open>When the merged list is empty\<close>

lemma merge_into_flags: "merge_into E h new vs = Inr vs' \<Longrightarrow> map snd vs' = map snd vs"
  by (induction vs arbitrary: vs') (auto split: if_splits sum.splits)

lemma dedup_loop_keeps_some:
  "dedup_loop E vis seen ps = Inr v \<Longrightarrow> filter snd vis \<noteq> [] \<Longrightarrow> filter snd v \<noteq> []"
proof (induction ps arbitrary: vis seen)
  case Nil
  then show ?case by simp
next
  case (Cons p ps)
  show ?case
  proof (cases "calculate_patent_hash E p \<notin> set seen")
    case True
    with Cons.prems(1)
    have "dedup_loop E (vis @ [(p, True)]) (calculate_patent_hash E p # seen) ps = Inr v"
      by (simp add: Let_def)
    from Cons.IH[OF this] show ?thesis by simp
  next
    case False
    with Cons.prems(1) obtain vis'
      where m: "merge_into E (calculate_patent_hash E p) p vis = Inr vis'"
        and d: "dedup_loop E (vis' @ [(p, False)]) seen ps = Inr v"
      by (auto simp: Let_def split: sum.splits)
    from Cons.prems(2) have "True \<in> set (map snd vis)"
      by (force simp: filter_empty_conv)
    then have "True \<in> set (map snd vis')"
      by (simp only: merge_into_flags[OF m])
    then have "filter snd (vis' @ [(p, False)]) \<noteq> []"
      by (force simp: filter_empty_conv)
    from Cons.IH[OF d this] show ?thesis .
  qed
qed

lemma deduplicate_patents_not_empty: "ps \<noteq> [] \<Longrightarrow> deduplicate_patents E ps \<noteq> []"
proof -
  assume ne: "ps \<noteq> []"
  then obtain p rest where ps: "ps = p # rest" by (cases ps) auto
  show ?thesis
  proof (cases "dedup_loop E [] [] ps")
    case (Inl qs)
    from dedup_loop_length_Inl[OF Inl] ne Inl show ?thesis
      by (auto simp: deduplicate_patents_def)
  next
    case (Inr v)
    then have "dedup_loop E [(p, True)] [calculate_patent_hash E p] rest = Inr v"
      by (simp add: ps Let_def)
    from dedup_loop_keeps_some[OF this] have "filter snd v \<noteq> []" by simp
    with Inr ne show ?thesis by (simp add: deduplicate_patents_def)
  qed
qed

text \<open>
  C6, as amended. When a record of a completed backend is not a dictionary, the tagging
  in \<^verbatim>\<open>_merge_and_deduplicate_results\<close> raises; the step logs the error and returns
  the empty list, and the run still completes, with a merged count of 0. When all the
  records of the completed backends are dictionaries, the step returns the result of the
  deduplication pass, which is not empty as soon as one completed backend has a record,
  whatever exceptions were raised and handled while duplicates were merged. The step
  returns a list for every result map, and the summary built after it has the status
  \<^verbatim>\<open>completed\<close>.
\<close>

theorem merge_failure_gives_empty_result:
  "((\<exists>dr \<in> set rm. status (snd dr) = ''completed'' \<and>
        (\<exists>v \<in> set (results (snd dr)). \<not> is_dict v)) \<longrightarrow>
      merge_and_deduplicate_results E rm lg = ([], lg @ [MergeStarted, MergeFailed TypeError])
      \<and> merged_results (completed_summary E databases rm lg) = []
      \<and> merged_count (completed_summary E databases rm lg) = 0)
   \<and> ((\<forall>dr \<in> set rm. status (snd dr) = ''completed'' \<longrightarrow>
        (\<forall>v \<in> set (results (snd dr)). is_dict v)) \<longrightarrow>
      (\<exists>ps. collect_patents rm = Inr ps
          \<and> fst (merge_and_deduplicate_results E rm lg) = deduplicate_patents E ps)
      \<and> ((\<exists>dr \<in> set rm. status (snd dr) = ''completed'' \<and> results (snd dr) \<noteq> []) \<longrightarrow>
           fst (merge_and_deduplicate_results E rm lg) \<noteq> []))
   \<and> run_status (completed_summary E databases rm lg) = ''completed''"
proof (intro conjI impI)
  assume "\<exists>dr \<in> set rm. status (snd dr) = ''completed'' \<and>
            (\<exists>v \<in> set (results (snd dr)). \<not> is_dict v)"
  then have "collect_patents rm = Inl TypeError"
    by (rule collect_patents_not_dict)
  then show m: "merge_and_deduplicate_results E rm lg
                  = ([], lg @ [MergeStarted, MergeFailed TypeError])"
    by (simp add: merge_and_deduplicate_results_def)
  then show "merged_results (completed_summary E databases rm lg) = []"
    and "merged_count (completed_summary E databases rm lg) = 0"
    by (simp_all add: completed_summary_def Let_def)
next
  assume dicts: "\<forall>dr \<in> set rm. status (snd dr) = ''completed'' \<longrightarrow>
                   (\<forall>v \<in> set (results (snd dr)). is_dict v)"
  from collect_patents_dicts[OF this] obtain ps where ps: "collect_patents rm = Inr ps"
    by blast
  then have m: "fst (merge_and_deduplicate_results E rm lg) = deduplicate_patents E ps"
    by (simp add: merge_and_deduplicate_results_def Let_def)
  with ps show "\<exists>ps. collect_patents rm = Inr ps
          \<and> fst (merge_and_deduplicate_results E rm lg) = deduplicate_patents E ps"
    by blast
  assume "\<exists>dr \<in> set rm. status (snd dr) = ''completed'' \<and> results (snd dr) \<noteq> []"
  then obtain db r v where r: "(db, r) \<in> set rm" "status r = ''completed''" "v \<in> set (results r)"
    by (metis ex_in_conv prod.collapse set_empty)
  with dicts obtain kvs where "v = PDict kvs" by (cases v) force+
  with collect_patents_mem[OF ps r(1,2)] r(3) have "ps \<noteq> []" by auto
  with m show "fst (merge_and_deduplicate_results E rm lg) \<noteq> []"
    by (simp add: deduplicate_patents_not_empty)
next
  show "run_status (completed_summary E databases rm lg) = ''completed''"
    by (simp add: completed_summary_def Let_def)
qed

text \<open>
  A backend returns a list that holds \<^verbatim>\<open>None\<close> beside a record: the sequential run over
  it completes with no merged record, and the log has the merge error.
\<close>

theorem merge_failure_gives_empty_result_witness:
  "merge_and_deduplicate_results sample_env
     [(''twpat'', \<lparr>status = ''completed'', error = None, total_found = 2,
                   results = [PDict [(''patent_number'', PStr ''1'')], PNone],
                   downloaded_files = []\<rparr>)] []
     = ([], [MergeStarted, MergeFailed TypeError])
   \<and> run_status (search_multiple_databases sample_env
        [''twpat'' \<mapsto> Returns \<lparr>status = ''completed'', error = None, total_found = 2,
                   results = [PDict [(''patent_number'', PStr ''1'')], PNone],
                   downloaded_files = []\<rparr>] [''twpat''] False []) = ''completed''
   \<and> merged_count (search_multiple_databases sample_env
        [''twpat'' \<mapsto> Returns \<lparr>status = ''completed'', error = None, total_found = 2,
                   results = [PDict [(''patent_number'', PStr ''1'')], PNone],
                   downloaded_files = []\<rparr>] [''twpat''] False []) = 0
   \<and> fst (merge_and_deduplicate_results sample_env
     [(''twpat'', \<lparr>status = ''completed'', error = None, total_found = 1,
                   results = [PDict [(''patent_number'', PStr ''1'')]],
                   downloaded_files = []\<rparr>)] []) \<noteq> []"
proof -
  let ?bad = "[(''twpat'', \<lparr>status = ''completed'', error = None, total_found = 2,
                   results = [PDict [(''patent_number'', PStr ''1'')], PNone],
                   downloaded_files = []\<rparr>)]"
  let ?good = "[(''twpat'', \<lparr>status = ''completed'', error = None, total_found = 1,
                   results = [PDict [(''patent_number'', PStr ''1'')]],
                   downloaded_files = []\<rparr>)]"
  let ?lg = "[RunStarted [''twpat''], SequentialMode,
             SearchStarted ''twpat'', SearchCompleted ''twpat'' 2]"
  have b: "\<exists>dr \<in> set ?bad. status (snd dr) = ''completed'' \<and>
             (\<exists>v \<in> set (results (snd dr)). \<not> is_dict v)"
    by simp
  have g: "\<forall>dr \<in> set ?good. status (snd dr) = ''completed'' \<longrightarrow>
             (\<forall>v \<in> set (results (snd dr)). is_dict v)"
    and n: "\<exists>dr \<in> set ?good. status (snd dr) = ''completed'' \<and> results (snd dr) \<noteq> []"
    by simp_all
  note B = merge_failure_gives_empty_result
             [where rm = ?bad and E = sample_env and lg = "[]" and databases = "[''twpat'']",
              THEN conjunct1, THEN mp, OF b]
  note B' = merge_failure_gives_empty_result
             [where rm = ?bad and E = sample_env and lg = ?lg and databases = "[''twpat'']"]
  note G = merge_failure_gives_empty_result
             [where rm = ?good and E = sample_env and lg = "[]" and databases = "[''twpat'']",
              THEN conjunct2, THEN conjunct1, THEN mp, OF g, THEN conjunct2, THEN mp, OF n]
  have run: "search_multiple_databases sample_env
        [''twpat'' \<mapsto> Returns \<lparr>status = ''completed'', error = None, total_found = 2,
                   results = [PDict [(''patent_number'', PStr ''1'')], PNone],
                   downloaded_files = []\<rparr>] [''twpat''] False []
      = completed_summary sample_env [''twpat''] ?bad ?lg"
    by (simp add: search_multiple_databases_def search_sequential_def sequential_step_def)
  from B have 1: "merge_and_deduplicate_results sample_env ?bad []
                    = ([], [MergeStarted, MergeFailed TypeError])"
    by simp
  from B'[THEN conjunct2, THEN conjunct2]
  have 2: "run_status (completed_summary sample_env [''twpat''] ?bad ?lg) = ''completed''" .
  from B'[THEN conjunct1, THEN mp, OF b]
  have 3: "merged_count (completed_summary sample_env [''twpat''] ?bad ?lg) = 0" by simp
  from 1 2 3 G show ?thesis by (simp only: run) simp
qed

text \<open>
  Against C6 as stated. A backend returns the same patent twice, the second time with a
  list of dictionaries under \<^verbatim>\<open>inventors\<close>. While the two are merged the set of the
  inventors raises \<^verbatim>\<open>TypeError\<close> (a dictionary is unhashable), inside the merge step;
  the merged list is not empty: it holds the first record.
\<close>

theorem exception_in_merge_keeps_merged_list:
  "\<forall>E. fst (merge_patent_info_try E
              [(''patent_number'', PStr ''1''), (''title'', PStr ''t''),
               (''source_databases'', PList (set_iteration E [PStr ''uspto'', PStr ''uspto'']))]
              [(''patent_number'', PStr ''1''), (''title'', PStr ''t''),
               (''inventors'', PList [PDict [(''name'', PStr ''Ann'')]]),
               (''source_databases'', PList [PStr ''uspto''])])
        = Some TypeError
      \<and> fst (merge_and_deduplicate_results E
           [(''uspto'', \<lparr>status = ''completed'', error = None, total_found = 2,
               results = [PDict [(''patent_number'', PStr ''1''), (''title'', PStr ''t'')],
                          PDict [(''patent_number'', PStr ''1''), (''title'', PStr ''t''),
                                 (''inventors'', PList [PDict [(''name'', PStr ''Ann'')]])]],
               downloaded_files = []\<rparr>)] [])
        = [[(''patent_number'', PStr ''1''), (''title'', PStr ''t''),
            (''source_databases'', PList (set_iteration E [PStr ''uspto'', PStr ''uspto'']))]]"
  by (simp add: merge_and_deduplicate_results_def deduplicate_patents_def Let_def
        calculate_patent_hash_def hash_string_def dict_get_def dict_set_def union_field_def
        py_union_def merge_patent_info_def merge_patent_info_try_def)

section \<open>The fingerprint never fails\<close>

text \<open>
  C10. \<^verbatim>\<open>_calculate_patent_hash\<close> returns a string for every record. When the number and
  the title are strings or are missing (a missing key counts as the empty string) the
  normal path succeeds and the result is the digest. When one of them is present and is
  not a string the normal path raises \<^verbatim>\<open>AttributeError\<close>, and the result is the decimal
  form of the built-in hash of the whole record's string. Two such records have the same
  fingerprint exactly when these hashes are equal; so, where the built-in hash does not
  collide on the strings of the two records, exactly when their strings are equal.
\<close>

theorem fingerprint_total_with_fallback:
  "(string_keys_ok p \<longrightarrow>
      hash_string p = Inr (normalized_number p @ ''|'' @ normalized_title p) \<and>
      calculate_patent_hash E p =
        md5_hexdigest E (normalized_number p @ ''|'' @ normalized_title p))
   \<and> (\<not> string_keys_ok p \<longrightarrow>
      hash_string p = Inl AttributeError \<and>
      calculate_patent_hash E p = int_str (builtin_hash E (py_str E (PDict p))))
   \<and> (map_of p ''patent_number'' = None \<and> map_of p ''title'' = None \<longrightarrow> string_keys_ok p)
   \<and> (\<not> string_keys_ok a \<and> \<not> string_keys_ok b \<longrightarrow>
        (calculate_patent_hash E a = calculate_patent_hash E b \<longleftrightarrow>
         builtin_hash E (py_str E (PDict a)) = builtin_hash E (py_str E (PDict b))))
   \<and> (\<not> string_keys_ok a \<and> \<not> string_keys_ok b \<and>
      (builtin_hash E (py_str E (PDict a)) = builtin_hash E (py_str E (PDict b))
         \<longrightarrow> py_str E (PDict a) = py_str E (PDict b)) \<longrightarrow>
        (calculate_patent_hash E a = calculate_patent_hash E b \<longleftrightarrow>
         py_str E (PDict a) = py_str E (PDict b)))"
proof -
  have fb: "\<And>q. \<not> string_keys_ok q \<Longrightarrow>
      calculate_patent_hash E q = int_str (builtin_hash E (py_str E (PDict q)))"
    by (simp add: calculate_patent_hash_def hash_string_not_ok)
  have eq: "\<not> string_keys_ok a \<and> \<not> string_keys_ok b \<longrightarrow>
        (calculate_patent_hash E a = calculate_patent_hash E b \<longleftrightarrow>
         builtin_hash E (py_str E (PDict a)) = builtin_hash E (py_str E (PDict b)))"
    using int_str_inj by (auto simp: fb)
  have missing: "map_of p ''patent_number'' = None \<and> map_of p ''title'' = None
      \<longrightarrow> string_keys_ok p"
    by (simp add: string_keys_ok_def dict_get_def)
  from eq missing show ?thesis
    by (auto simp: hash_string_ok hash_string_not_ok fingerprint_ok fb)
qed

text \<open>
  A record without number and title takes the normal path. A record whose number is the
  integer 1234567 takes the fallback, and so does one whose title is \<^verbatim>\<open>None\<close>; the
  two have different strings and, in the sample environment, different fingerprints.
\<close>

theorem fingerprint_total_with_fallback_witness:
  "calculate_patent_hash sample_env [(''abstract'', PStr ''A gadget.'')] = ''|''
   \<and> calculate_patent_hash sample_env [(''patent_number'', PInt 1234567)] = ''26''
   \<and> calculate_patent_hash sample_env [(''title'', PNone)] = ''15''
   \<and> calculate_patent_hash sample_env [(''patent_number'', PInt 1234567)]
       \<noteq> calculate_patent_hash sample_env [(''title'', PNone)]"
proof -
  have n: "normalize_number [] = []" "normalize_title [] = []"
    by (simp_all add: normalize_number_def normalize_title_def py_strip_def py_upper_def
          py_lower_def)
  have s: "int_str 1234567 = ''1234567''" "int_str 26 = ''26''" "int_str 15 = ''15''"
    by (simp_all add: int_str_def nat_str_eval digits_def)
  show ?thesis
    using fingerprint_total_with_fallback
        [of "[(''abstract'', PStr ''A gadget.'')]" sample_env
            "[(''patent_number'', PInt 1234567)]" "[(''title'', PNone)]"]
      fingerprint_total_with_fallback
        [of "[(''patent_number'', PInt 1234567)]" sample_env
            "[(''patent_number'', PInt 1234567)]" "[(''title'', PNone)]"]
      fingerprint_total_with_fallback
        [of "[(''title'', PNone)]" sample_env
            "[(''patent_number'', PInt 1234567)]" "[(''title'', PNone)]"]
    by (simp add: string_keys_ok_def dict_get_def normalized_number_def normalized_title_def
          n s sample_env_def)
qed

section \<open>The result map of a run\<close>

lemma update_set_same_value:
  "\<forall>p \<in> set al. fst p = k \<longrightarrow> snd p = v \<Longrightarrow> set (AList.update k v al) = insert (k, v) (set al)"
  by (induction al) auto

lemma sequential_step_fst:
  "fst (sequential_step bs d st) = AList.update d (entry_for bs d) (fst st)"
  by (simp add: sequential_step_def entry_for_def split: option.splits backend_outcome.splits)

lemma parallel_collect_fst:
  "fst (parallel_collect bs d st) =
     (if bs d = None then fst st else AList.update d (entry_for bs d) (fst st))"
  by (simp add: parallel_collect_def entry_for_def split: option.splits backend_outcome.splits)

lemma sequential_fold_entries:
  assumes "\<forall>p \<in> set (fst st). snd p = entry_for bs (fst p)" and "distinct (map fst (fst st))"
  shows "set (fst (fold (sequential_step bs) ds st)) =
           set (fst st) \<union> (\<lambda>d. (d, entry_for bs d)) ` set ds
       \<and> distinct (map fst (fst (fold (sequential_step bs) ds st)))"
  using assms
proof (induction ds arbitrary: st)
  case Nil
  then show ?case by simp
next
  case (Cons d ds)
  let ?st = "sequential_step bs d st"
  have s: "set (fst ?st) = insert (d, entry_for bs d) (set (fst st))"
    unfolding sequential_step_fst using Cons.prems(1)
    by (intro update_set_same_value) auto
  have i: "\<forall>p \<in> set (fst ?st). snd p = entry_for bs (fst p)"
    using s Cons.prems(1) by auto
  have dst: "distinct (map fst (fst ?st))"
    unfolding sequential_step_fst using Cons.prems(2) by (rule distinct_update)
  from Cons.IH[OF i dst] s show ?case by auto
qed

lemma parallel_fold_entries:
  assumes "\<forall>p \<in> set (fst st). snd p = entry_for bs (fst p)" and "distinct (map fst (fst st))"
    and "\<forall>d \<in> set ds. bs d \<noteq> None"
  shows "set (fst (fold (parallel_collect bs) ds st)) =
           set (fst st) \<union> (\<lambda>d. (d, entry_for bs d)) ` set ds
       \<and> distinct (map fst (fst (fold (parallel_collect bs) ds st)))"
  using assms
proof (induction ds arbitrary: st)
  case Nil
  then show ?case by simp
next
  case (Cons d ds)
  let ?st = "parallel_collect bs d st"
  from Cons.prems(3) have "bs d \<noteq> None" by simp
  then have f: "fst ?st = AList.update d (entry_for bs d) (fst st)"
    by (simp only: parallel_collect_fst if_False)
  have s: "set (fst ?st) = insert (d, entry_for bs d) (set (fst st))"
    unfolding f using Cons.prems(1)
    by (intro update_set_same_value) auto
  have i: "\<forall>p \<in> set (fst ?st). snd p = entry_for bs (fst p)"
    using s Cons.prems(1) by auto
  have dst: "distinct (map fst (fst ?st))"
    unfolding f using Cons.prems(2) by (rule distinct_update)
  from Cons.prems(3) have "\<forall>d \<in> set ds. bs d \<noteq> None" by simp
  from Cons.IH[OF i dst this] s show ?case by auto
qed

lemma search_sequential_entries:
  "set (fst (search_sequential bs databases lg)) = (\<lambda>d. (d, entry_for bs d)) ` set databases"
  "distinct (map fst (fst (search_sequential bs databases lg)))"
  using sequential_fold_entries[of "([], lg @ [SequentialMode])" bs databases]
  by (simp_all add: search_sequential_def)

lemma search_parallel_entries:
  assumes "well_behaved E" and "databases \<noteq> []"
  shows "\<exists>rm. fst (search_parallel E bs databases lg) = Inr rm
            \<and> set rm = (\<lambda>d. (d, entry_for bs d)) ` {d \<in> set databases. bs d \<noteq> None}
            \<and> distinct (map fst rm)"
proof -
  let ?reg = "filter (\<lambda>db. bs db \<noteq> None) databases"
  let ?lg = "lg @ [ParallelMode] @ map UnsupportedDatabase (filter (\<lambda>db. bs db = None) databases)"
  from assms(1) have "mset (completion_order E ?reg) = mset ?reg"
    by (simp add: well_behaved_def)
  then have c: "set (completion_order E ?reg) = {d \<in> set databases. bs d \<noteq> None}"
    by (metis mset_eq_setD set_filter)
  then have "\<forall>d \<in> set (completion_order E ?reg). bs d \<noteq> None" by simp
  from parallel_fold_entries[of "([], ?lg)" bs "completion_order E ?reg", OF _ _ this] c assms(2)
  show ?thesis by (simp add: search_parallel_def Let_def)
qed

section \<open>Invariants of the deduplication\<close>

lemma members_set_iteration:
  "well_behaved E \<Longrightarrow> set (set_iteration E xs) = set xs"
  by (simp add: well_behaved_def)

lemma hashable_set_iteration:
  "well_behaved E \<Longrightarrow> list_all hashable xs \<Longrightarrow> list_all hashable (set_iteration E xs)"
  by (simp add: list_all_iff members_set_iteration)

lemma fingerprint_cong:
  assumes "string_keys_ok a"
    and "map_of b ''patent_number'' = map_of a ''patent_number''"
    and "map_of b ''title'' = map_of a ''title''"
  shows "string_keys_ok b" and "calculate_patent_hash E b = calculate_patent_hash E a"
proof -
  from assms show b: "string_keys_ok b"
    using string_keys_ok_cong[of b a] by simp
  from assms b normalized_cong[of b a]
  show "calculate_patent_hash E b = calculate_patent_hash E a"
    by (simp add: fingerprint_ok)
qed

text \<open>
  Merging \<open>p\<close> into a kept record \<open>q\<close>: the union of the sources succeeds, and the
  merged record keeps the fingerprint of \<open>q\<close> and has the sources of both.
\<close>

lemma merge_keyed:
  assumes wb: "well_behaved E" and q: "keyed q" and p: "keyed p"
  shows "\<exists>q'. union_field E ''source_databases'' q p = Inr q' \<and>
           keyed (merge_patent_info E q' p) \<and>
           calculate_patent_hash E (merge_patent_info E q' p) = calculate_patent_hash E q \<and>
           sources (merge_patent_info E q' p) = sources q \<union> sources p"
proof -
  from q p obtain xs ys where xs: "dict_get q ''source_databases'' (PList []) = PList xs"
      "list_all hashable xs"
    and ys: "dict_get p ''source_databases'' (PList []) = PList ys" "list_all hashable ys"
    unfolding keyed_def by (meson multi_valued_PList)
  define q' where "q' = dict_set q ''source_databases'' (PList (set_iteration E (xs @ ys)))"
  have u: "union_field E ''source_databases'' q p = Inr q'"
    unfolding q'_def using xs(1) ys(1) xs(2) ys(2) by (rule union_field_lists)
  let ?m = "merge_patent_info E q' p"
  have sd: "map_of ?m ''source_databases'' = map_of q' ''source_databases''"
    by (rule merge_patent_info_frame) simp
  have pn: "map_of ?m ''patent_number'' = map_of q ''patent_number''"
    using merge_patent_info_frame[of "''patent_number''" E q' p]
    by (simp add: q'_def dict_set_def update_conv')
  have ti: "map_of ?m ''title'' = map_of q ''title''"
    using merge_patent_info_frame[of "''title''" E q' p]
    by (simp add: q'_def dict_set_def update_conv')
  from q have sq: "string_keys_ok q" by (simp add: keyed_def)
  have g: "dict_get ?m ''source_databases'' (PList []) = PList (set_iteration E (xs @ ys))"
    using sd by (simp add: dict_get_def q'_def dict_set_def update_conv')
  have "keyed ?m"
    using fingerprint_cong(1)[OF sq pn ti] g hashable_set_iteration[OF wb, of "xs @ ys"] xs ys
    by (simp add: keyed_def)
  moreover have "calculate_patent_hash E ?m = calculate_patent_hash E q"
    using sq pn ti by (rule fingerprint_cong(2))
  moreover have "sources ?m = sources q \<union> sources p"
    using g xs ys members_set_iteration[OF wb, of "xs @ ys"]
    by (simp add: sources_def field_members_def)
  ultimately show ?thesis using u by blast
qed

lemma kept_hashes_Cons:
  "kept_hashes E ((q, k) # vis) =
     (if k then insert (calculate_patent_hash E q) (kept_hashes E vis) else kept_hashes E vis)"
  by (simp add: kept_hashes_def)

lemma grown_refl: "keyed (fst x) \<Longrightarrow> grown E x x"
  by (simp add: grown_def)

lemma merge_into_grown:
  assumes wb: "well_behaved E" and p: "keyed p" and vis: "\<forall>x \<in> set vis. keyed (fst x)"
  shows "\<exists>vis'. merge_into E h p vis = Inr vis' \<and> list_all2 (grown E) vis vis' \<and>
           (h \<in> kept_hashes E vis \<longrightarrow> covered E h (sources p) vis')"
  using vis
proof (induction vis)
  case Nil
  then show ?case by (simp add: kept_hashes_def)
next
  case (Cons x vis)
  obtain q k where x: "x = (q, k)" by (cases x)
  from Cons.prems x have kq: "keyed q" by simp
  have rest: "list_all2 (grown E) vis vis"
    using Cons.prems by (simp add: list_all2_same grown_refl)
  show ?case
  proof (cases "k \<and> calculate_patent_hash E q = h")
    case True
    from merge_keyed[OF wb kq p] obtain q' where
      u: "union_field E ''source_databases'' q p = Inr q'"
      and m: "keyed (merge_patent_info E q' p)"
        "calculate_patent_hash E (merge_patent_info E q' p) = calculate_patent_hash E q"
        "sources (merge_patent_info E q' p) = sources q \<union> sources p"
      by blast
    have "merge_into E h p (x # vis) = Inr ((merge_patent_info E q' p, k) # vis)"
      using True u x by simp
    moreover have "grown E x (merge_patent_info E q' p, k)"
      using m x by (simp add: grown_def)
    moreover have "covered E h (sources p) ((merge_patent_info E q' p, k) # vis)"
      using True m unfolding covered_def by (intro exI[of _ "merge_patent_info E q' p"]) auto
    ultimately show ?thesis using rest by auto
  next
    case False
    from Cons.prems have "\<forall>x \<in> set vis. keyed (fst x)" by simp
    from Cons.IH[OF this] obtain vis' where
      m: "merge_into E h p vis = Inr vis'" and g: "list_all2 (grown E) vis vis'"
      and c: "h \<in> kept_hashes E vis \<longrightarrow> covered E h (sources p) vis'"
      by blast
    have "merge_into E h p (x # vis) = Inr (x # vis')"
      using False m x by auto
    moreover have "list_all2 (grown E) (x # vis) (x # vis')"
      using g kq x by (simp add: grown_refl)
    moreover have "h \<in> kept_hashes E (x # vis) \<longrightarrow> covered E h (sources p) (x # vis')"
    proof
      assume "h \<in> kept_hashes E (x # vis)"
      with False x have "h \<in> kept_hashes E vis"
        by (auto simp: kept_hashes_Cons split: if_splits)
      with c show "covered E h (sources p) (x # vis')" by (auto simp: covered_def)
    qed
    ultimately show ?thesis by blast
  qed
qed

lemma grown_kept_hashes:
  "list_all2 (grown E) vis vis' \<Longrightarrow> kept_hashes E vis' = kept_hashes E vis"
  by (induction rule: list_all2_induct) (auto simp: kept_hashes_def grown_def)

lemma grown_keyed: "list_all2 (grown E) vis vis' \<Longrightarrow> \<forall>y \<in> set vis'. keyed (fst y)"
  by (induction rule: list_all2_induct) (auto simp: grown_def)

lemma grown_covered:
  "list_all2 (grown E) vis vis' \<Longrightarrow> covered E h S vis \<Longrightarrow> covered E h S vis'"
proof (induction rule: list_all2_induct)
  case Nil
  then show ?case by simp
next
  case (Cons x xs y ys)
  from Cons.prems obtain m where m: "(m, True) \<in> set (x # xs)"
    "calculate_patent_hash E m = h" "S \<subseteq> sources m"
    by (auto simp: covered_def)
  show ?case
  proof (cases "(m, True) = x")
    case True
    with Cons.hyps(1) m have "(fst y, True) = y \<and> calculate_patent_hash E (fst y) = h \<and> S \<subseteq> sources (fst y)"
      by (auto simp: grown_def prod_eq_iff)
    then show ?thesis unfolding covered_def by (intro exI[of _ "fst y"]) auto
  next
    case False
    with m have "covered E h S xs" by (auto simp: covered_def)
    with Cons.IH show ?thesis by (auto simp: covered_def)
  qed
qed

lemma covered_append: "covered E h S vis \<Longrightarrow> covered E h S (vis @ ys)"
  by (auto simp: covered_def)

lemma kept_hashes_snoc:
  "kept_hashes E (vis @ [(p, True)]) = insert (calculate_patent_hash E p) (kept_hashes E vis)"
  "kept_hashes E (vis @ [(p, False)]) = kept_hashes E vis"
  by (simp_all add: kept_hashes_def)

text \<open>
  The loop over keyed records never leaves by an exception, and every record it visits is
  covered at the end, as is whatever was covered before.
\<close>

lemma dedup_loop_keyed:
  assumes wb: "well_behaved E"
    and "\<forall>x \<in> set vis. keyed (fst x)" and "\<forall>p \<in> set ps. keyed p"
    and "set seen = kept_hashes E vis"
  shows "\<exists>v. dedup_loop E vis seen ps = Inr v \<and>
           (\<forall>p \<in> set ps. covered E (calculate_patent_hash E p) (sources p) v) \<and>
           (\<forall>h S. covered E h S vis \<longrightarrow> covered E h S v) \<and>
           (\<forall>y \<in> set v. keyed (fst y))"
  using assms(2-4)
proof (induction ps arbitrary: vis seen)
  case Nil
  then show ?case by simp
next
  case (Cons p ps)
  let ?h = "calculate_patent_hash E p"
  from Cons.prems have kp: "keyed p" and kps: "\<forall>p \<in> set ps. keyed p" by simp_all
  show ?case
  proof (cases "?h \<in> set seen")
    case False
    let ?vis = "vis @ [(p, True)]"
    have 1: "\<forall>x \<in> set ?vis. keyed (fst x)" using Cons.prems(1) kp by auto
    have 2: "set (?h # seen) = kept_hashes E ?vis"
      using Cons.prems(3) by (simp add: kept_hashes_snoc)
    from Cons.IH[OF 1 kps 2] obtain v where
      v: "dedup_loop E ?vis (?h # seen) ps = Inr v"
      and c: "\<forall>p \<in> set ps. covered E (calculate_patent_hash E p) (sources p) v"
      and m: "\<forall>h S. covered E h S ?vis \<longrightarrow> covered E h S v"
      and k: "\<forall>y \<in> set v. keyed (fst y)"
      by blast
    have "covered E ?h (sources p) ?vis"
      unfolding covered_def by (intro exI[of _ p]) simp
    with m have "covered E ?h (sources p) v" by blast
    moreover have "\<forall>h S. covered E h S vis \<longrightarrow> covered E h S v"
      using m covered_append by blast
    moreover have "dedup_loop E vis seen (p # ps) = Inr v"
      using False v by (simp add: Let_def)
    ultimately show ?thesis using c k by auto
  next
    case True
    with Cons.prems(3) have hk: "?h \<in> kept_hashes E vis" by simp
    from merge_into_grown[OF wb kp Cons.prems(1), of ?h] hk obtain vis' where
      mi: "merge_into E ?h p vis = Inr vis'" and g: "list_all2 (grown E) vis vis'"
      and cp: "covered E ?h (sources p) vis'"
      by blast
    let ?vis = "vis' @ [(p, False)]"
    have 1: "\<forall>x \<in> set ?vis. keyed (fst x)" using grown_keyed[OF g] kp by auto
    have 2: "set seen = kept_hashes E ?vis"
      using Cons.prems(3) grown_kept_hashes[OF g] by (simp add: kept_hashes_snoc)
    from Cons.IH[OF 1 kps 2] obtain v where
      v: "dedup_loop E ?vis seen ps = Inr v"
      and c: "\<forall>p \<in> set ps. covered E (calculate_patent_hash E p) (sources p) v"
      and m: "\<forall>h S. covered E h S ?vis \<longrightarrow> covered E h S v"
      and k: "\<forall>y \<in> set v. keyed (fst y)"
      by blast
    have "covered E ?h (sources p) v"
      using cp m covered_append by blast
    moreover have "\<forall>h S. covered E h S vis \<longrightarrow> covered E h S v"
      using m covered_append grown_covered[OF g] by blast
    moreover have "dedup_loop E vis seen (p # ps) = Inr v"
      using True mi v by (simp add: Let_def)
    ultimately show ?thesis using c k by auto
  qed
qed

lemma deduplicate_patents_keyed:
  assumes "well_behaved E" and "\<forall>p \<in> set ps. keyed p" and "p \<in> set ps"
  shows "\<exists>m \<in> set (deduplicate_patents E ps).
           calculate_patent_hash E m = calculate_patent_hash E p \<and> sources p \<subseteq> sources m"
proof -
  from dedup_loop_keyed[OF assms(1) _ assms(2), of "[]" "[]"] obtain v where
    v: "dedup_loop E [] [] ps = Inr v"
    and c: "\<forall>p \<in> set ps. covered E (calculate_patent_hash E p) (sources p) v"
    by (auto simp: kept_hashes_def)
  from assms(3) have "ps \<noteq> []" by auto
  with v have d: "deduplicate_patents E ps = map fst (filter snd v)"
    by (simp add: deduplicate_patents_def)
  from c assms(3) obtain m where "(m, True) \<in> set v"
    "calculate_patent_hash E m = calculate_patent_hash E p" "sources p \<subseteq> sources m"
    by (auto simp: covered_def)
  then show ?thesis unfolding d by force
qed

section \<open>The deduplication of tagged records\<close>

lemma evolved_refl: "multi_valued (dict_get x ''source_databases'' (PList [])) \<Longrightarrow> evolved x x"
  by (simp add: evolved_def)

lemma evolved_trans: "evolved x y \<Longrightarrow> evolved y z \<Longrightarrow> evolved x z"
  by (auto simp: evolved_def)

lemma evolved_sourced:
  "evolved x y \<Longrightarrow> multi_valued (dict_get y ''source_databases'' (PList []))"
  by (simp add: evolved_def)

lemma tagged_sourced:
  "multi_valued (dict_get (tagged db kvs) ''source_databases'' (PList []))"
  "sources (tagged db kvs) = {PStr db}"
  by (simp_all add: tagged_def dict_get_dict_set sources_def field_members_def)

text \<open>
  Merging \<open>p\<close> into a kept record \<open>q\<close>, whatever their numbers and titles are: the union
  of the sources succeeds, and the merged record has the number and the title of \<open>q\<close>
  and the sources of both.
\<close>

lemma merge_evolved:
  assumes wb: "well_behaved E"
    and q: "multi_valued (dict_get q ''source_databases'' (PList []))"
    and p: "multi_valued (dict_get p ''source_databases'' (PList []))"
  shows "\<exists>q'. union_field E ''source_databases'' q p = Inr q' \<and>
           evolved q (merge_patent_info E q' p)"
proof -
  from q p obtain xs ys where xs: "dict_get q ''source_databases'' (PList []) = PList xs"
      "list_all hashable xs"
    and ys: "dict_get p ''source_databases'' (PList []) = PList ys" "list_all hashable ys"
    by (meson multi_valued_PList)
  define q' where "q' = dict_set q ''source_databases'' (PList (set_iteration E (xs @ ys)))"
  have u: "union_field E ''source_databases'' q p = Inr q'"
    unfolding q'_def using xs(1) ys(1) xs(2) ys(2) by (rule union_field_lists)
  let ?m = "merge_patent_info E q' p"
  have sd: "map_of ?m ''source_databases'' = map_of q' ''source_databases''"
    by (rule merge_patent_info_frame) simp
  have pn: "map_of ?m ''patent_number'' = map_of q ''patent_number''"
    using merge_patent_info_frame[of "''patent_number''" E q' p]
    by (simp add: q'_def dict_set_def update_conv')
  have ti: "map_of ?m ''title'' = map_of q ''title''"
    using merge_patent_info_frame[of "''title''" E q' p]
    by (simp add: q'_def dict_set_def update_conv')
  have g: "dict_get ?m ''source_databases'' (PList []) = PList (set_iteration E (xs @ ys))"
    using sd by (simp add: dict_get_def q'_def dict_set_def update_conv')
  have "evolved q ?m"
    using pn ti g xs ys hashable_set_iteration[OF wb, of "xs @ ys"]
      members_set_iteration[OF wb, of "xs @ ys"]
    by (simp add: evolved_def sources_def field_members_def)
  with u show ?thesis by blast
qed

lemma merge_into_evolved:
  assumes wb: "well_behaved E"
    and p: "multi_valued (dict_get p ''source_databases'' (PList []))"
    and vis: "\<forall>x \<in> set vis. multi_valued (dict_get (fst x) ''source_databases'' (PList []))"
  shows "\<exists>vis'. merge_into E h p vis = Inr vis' \<and>
           list_all2 (\<lambda>x y. snd y = snd x \<and> evolved (fst x) (fst y)) vis vis'"
  using vis
proof (induction vis)
  case Nil
  then show ?case by simp
next
  case (Cons x vis)
  obtain q k where x: "x = (q, k)" by (cases x)
  from Cons.prems x have sq: "multi_valued (dict_get q ''source_databases'' (PList []))"
    by simp
  have rest: "list_all2 (\<lambda>x y. snd y = snd x \<and> evolved (fst x) (fst y)) vis vis"
    using Cons.prems by (simp add: list_all2_same evolved_refl)
  show ?case
  proof (cases "k \<and> calculate_patent_hash E q = h")
    case True
    from merge_evolved[OF wb sq p] obtain q' where
      u: "union_field E ''source_databases'' q p = Inr q'"
      and e: "evolved q (merge_patent_info E q' p)"
      by blast
    have "merge_into E h p (x # vis) = Inr ((merge_patent_info E q' p, k) # vis)"
      using True u x by simp
    with e rest x show ?thesis by simp
  next
    case False
    from Cons.prems
    have "\<forall>x \<in> set vis. multi_valued (dict_get (fst x) ''source_databases'' (PList []))"
      by simp
    from Cons.IH[OF this] obtain vis' where
      m: "merge_into E h p vis = Inr vis'"
      and g: "list_all2 (\<lambda>x y. snd y = snd x \<and> evolved (fst x) (fst y)) vis vis'"
      by blast
    have "merge_into E h p (x # vis) = Inr (x # vis')"
      using False m x by auto
    with g sq x show ?thesis by (simp add: evolved_refl)
  qed
qed

lemma first_seen_snoc:
  "length orig = length vis \<Longrightarrow>
     first_seen (orig @ [p]) (vis @ [(q, k)])
       = (if k then first_seen orig vis @ [p] else first_seen orig vis)"
  by (simp add: first_seen_def)

lemma first_seen_flags: "map snd vis' = map snd vis \<Longrightarrow> first_seen orig vis' = first_seen orig vis"
  by (simp add: first_seen_def)

lemma first_seen_mem:
  assumes "q \<in> set (first_seen orig vis)" and "list_all2 R orig vis"
  shows "q \<in> set orig \<and> (\<exists>y \<in> set vis. snd y \<and> R q y)"
proof -
  from assms(1) have "(q, True) \<in> set (zip orig (map snd vis))"
    by (auto simp: first_seen_def)
  then obtain i where i: "i < length orig" "i < length vis" "orig ! i = q" "snd (vis ! i)"
    by (auto simp: in_set_zip)
  from assms(2) i(1) have "R (orig ! i) (vis ! i)" by (rule list_all2_nthD)
  with i show ?thesis by (metis nth_mem)
qed

lemma list_all2_right_mem: "list_all2 R xs ys \<Longrightarrow> y \<in> set ys \<Longrightarrow> \<exists>x \<in> set xs. R x y"
  by (induction rule: list_all2_induct) auto

text \<open>
  The loop over records whose sources are lists of hashable values never leaves by an
  exception. Every visited record keeps its number and title and at least its sources, and
  the fingerprint that a record had when the loop came to it is that of a record the loop
  kept.
\<close>

lemma dedup_loop_evolved:
  assumes wb: "well_behaved E"
    and "list_all2 (\<lambda>a x. evolved a (fst x)) orig vis"
    and "\<forall>p \<in> set ps. multi_valued (dict_get p ''source_databases'' (PList []))"
    and "set seen = calculate_patent_hash E ` set (first_seen orig vis)"
  shows "\<exists>v. dedup_loop E vis seen ps = Inr v \<and>
           list_all2 (\<lambda>a y. evolved a (fst y)) (orig @ ps) v \<and>
           set (first_seen orig vis) \<subseteq> set (first_seen (orig @ ps) v) \<and>
           (\<forall>p \<in> set ps. calculate_patent_hash E p
                            \<in> calculate_patent_hash E ` set (first_seen (orig @ ps) v))"
  using assms(2-4)
proof (induction ps arbitrary: orig vis seen)
  case Nil
  then show ?case by simp
next
  case (Cons p ps)
  let ?h = "calculate_patent_hash E p"
  from Cons.prems(1) have len: "length orig = length vis" by (rule list_all2_lengthD)
  from Cons.prems(2) have sp: "multi_valued (dict_get p ''source_databases'' (PList []))"
    and sps: "\<forall>p \<in> set ps. multi_valued (dict_get p ''source_databases'' (PList []))"
    by simp_all
  show ?case
  proof (cases "?h \<in> set seen")
    case False
    let ?vis = "vis @ [(p, True)]" and ?orig = "orig @ [p]"
    have 1: "list_all2 (\<lambda>a x. evolved a (fst x)) ?orig ?vis"
      using Cons.prems(1) sp by (simp add: list_all2_appendI evolved_refl)
    have fs: "first_seen ?orig ?vis = first_seen orig vis @ [p]"
      using len by (simp add: first_seen_snoc)
    have 2: "set (?h # seen) = calculate_patent_hash E ` set (first_seen ?orig ?vis)"
      using Cons.prems(3) by (simp add: fs)
    from Cons.IH[OF 1 sps 2] obtain v where
      v: "dedup_loop E ?vis (?h # seen) ps = Inr v"
      and e: "list_all2 (\<lambda>a y. evolved a (fst y)) (?orig @ ps) v"
      and m: "set (first_seen ?orig ?vis) \<subseteq> set (first_seen (?orig @ ps) v)"
      and c: "\<forall>p \<in> set ps. calculate_patent_hash E p
                \<in> calculate_patent_hash E ` set (first_seen (?orig @ ps) v)"
      by blast
    have d: "dedup_loop E vis seen (p # ps) = Inr v"
      using False v by (simp add: Let_def)
    from m fs have k: "p \<in> set (first_seen (orig @ p # ps) v)"
      and mono: "set (first_seen orig vis) \<subseteq> set (first_seen (orig @ p # ps) v)"
      by auto
    from e have e': "list_all2 (\<lambda>a y. evolved a (fst y)) (orig @ p # ps) v" by simp
    from c have c': "\<forall>x \<in> set ps. calculate_patent_hash E x
                \<in> calculate_patent_hash E ` set (first_seen (orig @ p # ps) v)" by simp
    from k have "?h \<in> calculate_patent_hash E ` set (first_seen (orig @ p # ps) v)"
      by (rule imageI)
    with c' have "\<forall>x \<in> set (p # ps). calculate_patent_hash E x
                \<in> calculate_patent_hash E ` set (first_seen (orig @ p # ps) v)"
      by simp
    with d e' mono show ?thesis by blast
  next
    case True
    have "\<forall>x \<in> set vis. multi_valued (dict_get (fst x) ''source_databases'' (PList []))"
      using list_all2_right_mem[OF Cons.prems(1)] evolved_sourced by blast
    from merge_into_evolved[OF wb sp this, of ?h] obtain vis' where
      mi: "merge_into E ?h p vis = Inr vis'"
      and g: "list_all2 (\<lambda>x y. snd y = snd x \<and> evolved (fst x) (fst y)) vis vis'"
      by blast
    let ?vis = "vis' @ [(p, False)]" and ?orig = "orig @ [p]"
    have o: "list_all2 (\<lambda>a x. evolved a (fst x)) orig vis'"
      by (rule list_all2_trans[OF _ Cons.prems(1) g]) (auto intro: evolved_trans)
    have fl: "map snd vis' = map snd vis" using mi by (rule merge_into_flags)
    from o have len': "length orig = length vis'" by (rule list_all2_lengthD)
    have fs: "first_seen ?orig ?vis = first_seen orig vis"
      using len' first_seen_flags[OF fl, of orig] by (simp add: first_seen_snoc)
    have 1: "list_all2 (\<lambda>a x. evolved a (fst x)) ?orig ?vis"
      using o sp by (simp add: list_all2_appendI evolved_refl)
    have 2: "set seen = calculate_patent_hash E ` set (first_seen ?orig ?vis)"
      using Cons.prems(3) by (simp add: fs)
    from Cons.IH[OF 1 sps 2] obtain v where
      v: "dedup_loop E ?vis seen ps = Inr v"
      and e: "list_all2 (\<lambda>a y. evolved a (fst y)) (?orig @ ps) v"
      and m: "set (first_seen ?orig ?vis) \<subseteq> set (first_seen (?orig @ ps) v)"
      and c: "\<forall>p \<in> set ps. calculate_patent_hash E p
                \<in> calculate_patent_hash E ` set (first_seen (?orig @ ps) v)"
      by blast
    have d: "dedup_loop E vis seen (p # ps) = Inr v"
      using True mi v by (simp add: Let_def)
    from m fs have mono: "set (first_seen orig vis) \<subseteq> set (first_seen (orig @ p # ps) v)"
      by simp
    from e have e': "list_all2 (\<lambda>a y. evolved a (fst y)) (orig @ p # ps) v" by simp
    from c have c': "\<forall>x \<in> set ps. calculate_patent_hash E x
                \<in> calculate_patent_hash E ` set (first_seen (orig @ p # ps) v)" by simp
    from True Cons.prems(3) have "?h \<in> calculate_patent_hash E ` set (first_seen orig vis)"
      by simp
    with mono have "?h \<in> calculate_patent_hash E ` set (first_seen (orig @ p # ps) v)"
      by blast
    with c' have "\<forall>x \<in> set (p # ps). calculate_patent_hash E x
                \<in> calculate_patent_hash E ` set (first_seen (orig @ p # ps) v)"
      by simp
    with d e' mono show ?thesis by blast
  qed
qed

lemma dedup_tagged:
  assumes wb: "well_behaved E"
    and "\<forall>p \<in> set ps. multi_valued (dict_get p ''source_databases'' (PList []))"
  shows "\<exists>v. dedup_loop E [] [] ps = Inr v \<and>
           list_all2 (\<lambda>a y. evolved a (fst y)) ps v \<and>
           (\<forall>p \<in> set ps. \<exists>q \<in> set ps. \<exists>m. (m, True) \<in> set v \<and>
              calculate_patent_hash E q = calculate_patent_hash E p \<and> evolved q m)"
proof -
  from dedup_loop_evolved[OF wb _ assms(2), of "[]" "[]" "[]"] obtain v where
    v: "dedup_loop E [] [] ps = Inr v"
    and e: "list_all2 (\<lambda>a y. evolved a (fst y)) ps v"
    and c: "\<forall>p \<in> set ps. calculate_patent_hash E p
              \<in> calculate_patent_hash E ` set (first_seen ps v)"
    by (auto simp: first_seen_def)
  have "\<exists>q \<in> set ps. \<exists>m. (m, True) \<in> set v \<and>
          calculate_patent_hash E q = calculate_patent_hash E p \<and> evolved q m"
    if "p \<in> set ps" for p
  proof -
    from c that obtain q where q: "q \<in> set (first_seen ps v)"
      "calculate_patent_hash E q = calculate_patent_hash E p"
      by (metis imageE)
    from first_seen_mem[OF q(1) e] obtain y where
      y: "q \<in> set ps" "y \<in> set v" "snd y" "evolved q (fst y)"
      by blast
    from y(3) obtain m where m: "y = (m, True)" by (cases y) auto
    with y(2,4) have "(m, True) \<in> set v" "evolved q m" by simp_all
    with y(1) q(2) show ?thesis by blast
  qed
  with v e show ?thesis by blast
qed

section \<open>The entries of the result map after the merge step\<close>

lemma tag_patents_rel:
  "tag_patents db vs = Inr tps \<Longrightarrow>
     list_all2 (\<lambda>v t. \<exists>kvs. v = PDict kvs \<and> t = tagged db kvs) vs tps"
  by (induction db vs arbitrary: tps rule: tag_patents.induct)
     (auto simp: tagged_def split: sum.splits)

lemma entry_kept_refl: "entry_kept r r"
  by (simp add: entry_kept_def)

lemma write_back_entries:
  assumes "collect_patents rm = Inr cps" and "list_all2 Q cps fs"
  shows "list_all2
           (\<lambda>x y. fst y = fst x \<and> entry_kept (snd x) (snd y) \<and>
              (status (snd x) = ''completed'' \<longrightarrow>
                 list_all2 (\<lambda>v v'. \<exists>kvs kvs'. v = PDict kvs \<and> v' = PDict kvs' \<and>
                                Q (tagged (fst x) kvs) kvs')
                   (results (snd x)) (results (snd y))))
           rm (write_back rm fs)"
  using assms
proof (induction rm arbitrary: cps fs rule: collect_patents.induct)
  case 1
  then show ?case by simp
next
  case (2 db r rest)
  show ?case
  proof (cases "status r = ''completed''")
    case False
    with "2.prems"(1) have c: "collect_patents rest = Inr cps" by simp
    from "2.IH"(2)[OF False c "2.prems"(2)] False show ?thesis
      by (simp add: entry_kept_refl)
  next
    case True
    with "2.prems"(1) obtain tps qs where t: "tag_patents db (results r) = Inr tps"
      and c: "collect_patents rest = Inr qs" and cps: "cps = tps @ qs"
      by (auto split: sum.splits)
    let ?n = "length (results r)"
    from tag_patents_length[OF t] have n: "length tps = ?n" .
    from "2.prems"(2) cps obtain us vs where fs: "fs = us @ vs" and lu: "length us = length tps"
      and a: "list_all2 Q tps us" and b: "list_all2 Q qs vs"
      by (auto simp: list_all2_append1)
    from fs lu n have tk: "take ?n fs = us" and dr: "drop ?n fs = vs" by simp_all
    have rel: "list_all2 (\<lambda>v v'. \<exists>kvs kvs'. v = PDict kvs \<and> v' = PDict kvs' \<and>
                              Q (tagged db kvs) kvs')
                 (results r) (map PDict us)"
      unfolding list_all2_map2
      by (rule list_all2_trans[OF _ tag_patents_rel[OF t] a]) auto
    have ek: "entry_kept r (r\<lparr>results := map PDict us\<rparr>)"
      using lu n True by (simp add: entry_kept_def)
    from "2.IH"(1)[OF True t c b] True rel ek show ?thesis
      by (simp add: tk dr)
  qed
qed

lemma results_after_tagging_entries:
  "list_all2 (\<lambda>x y. fst y = fst x \<and> entry_kept (snd x) (snd y)) rm (results_after_tagging rm)"
proof (induction rm rule: results_after_tagging.induct)
  case 1
  then show ?case by simp
next
  case (2 db r rest)
  have same: "list_all2 (\<lambda>x y. fst y = fst x \<and> entry_kept (snd x) (snd y)) rest rest"
    by (simp add: list_all2_same entry_kept_refl)
  have ek: "entry_kept r (r\<lparr>results := tagged_in_place db (results r)\<rparr>)"
    if "status r = ''completed''"
    using that by (simp add: entry_kept_def tagged_in_place_length)
  show ?case
  proof (cases "status r = ''completed''")
    case False
    with "2.IH"(2) show ?thesis by (simp add: entry_kept_refl)
  next
    case True
    show ?thesis
    proof (cases "tag_patents db (results r)")
      case (Inl e)
      with True same ek show ?thesis by simp
    next
      case (Inr ps)
      with True "2.IH"(1) ek show ?thesis by simp
    qed
  qed
qed

lemma list_all2_map_of:
  assumes "list_all2 P xs ys" and "\<And>x y. P x y \<Longrightarrow> fst y = fst x"
    and "distinct (map fst xs)" and "(k, v) \<in> set xs"
  shows "\<exists>v'. map_of ys k = Some v' \<and> P (k, v) (k, v')"
  using assms(1,3,4)
proof (induction rule: list_all2_induct)
  case Nil
  then show ?case by simp
next
  case (Cons x xs y ys)
  from assms(2)[OF Cons.hyps(1)] have fy: "fst y = fst x" .
  show ?case
  proof (cases "x = (k, v)")
    case True
    with fy have "y = (k, snd y)" by (cases y) simp
    with True Cons.hyps(1) have "map_of (y # ys) k = Some (snd y)" "P (k, v) (k, snd y)"
      by (metis map_of_Cons_code(2), metis)
    then show ?thesis by blast
  next
    case False
    with Cons.prems have m: "(k, v) \<in> set xs" and d: "distinct (map fst xs)" by simp_all
    from m have "k \<in> fst ` set xs" by force
    with Cons.prems(1) have "fst x \<noteq> k" by auto
    with fy have "map_of (y # ys) k = map_of ys k" by (cases y) simp
    with Cons.IH[OF d m] show ?thesis by simp
  qed
qed

lemma final_contents_length: "length (final_contents E ps) = length ps"
proof (cases "dedup_loop E [] [] ps")
  case (Inl qs)
  from dedup_loop_length_Inl[OF Inl] Inl show ?thesis by (simp add: final_contents_def)
next
  case (Inr v)
  from dedup_loop_length_Inr[OF Inr] Inr show ?thesis by (simp add: final_contents_def)
qed

text \<open>
  Whatever the records are, the merge step leaves every entry of the result map under its
  id, with its status, error, count and files and as many records as it had.
\<close>

lemma results_after_merge_entry:
  assumes "distinct (map fst rm)" and "(s, r) \<in> set rm"
  shows "\<exists>r'. map_of (results_after_merge E rm) s = Some r' \<and> entry_kept r r'"
proof (cases "collect_patents rm")
  case (Inl e)
  from list_all2_map_of[OF results_after_tagging_entries _ assms] Inl show ?thesis
    by (auto simp: results_after_merge_def)
next
  case (Inr cps)
  have "list_all2 (\<lambda>_ _. True) cps (final_contents E cps)"
    by (simp add: list_all2_conv_all_nth final_contents_length)
  from list_all2_map_of[OF write_back_entries[OF Inr this] _ assms] Inr show ?thesis
    by (auto simp: results_after_merge_def)
qed

lemma results_after_merge_entries:
  "list_all2 (\<lambda>x y. fst y = fst x \<and> entry_kept (snd x) (snd y)) rm (results_after_merge E rm)"
proof (cases "collect_patents rm")
  case (Inl e)
  then show ?thesis by (simp add: results_after_merge_def results_after_tagging_entries)
next
  case (Inr cps)
  have "list_all2 (\<lambda>_ _. True) cps (final_contents E cps)"
    by (simp add: list_all2_conv_all_nth final_contents_length)
  from write_back_entries[OF Inr this]
  have "list_all2 (\<lambda>x y. fst y = fst x \<and> entry_kept (snd x) (snd y))
          rm (write_back rm (final_contents E cps))"
    by (rule list_all2_mono) simp
  with Inr show ?thesis by (simp add: results_after_merge_def)
qed

lemma entry_kept_fields:
  assumes "entry_kept r r'"
  shows "length (results r') = length (results r)"
    and "downloaded_files r' = downloaded_files r"
    and "status r' = status r" and "error r' = error r" and "total_found r' = total_found r"
proof -
  from assms have e: "r' = r\<lparr>results := results r'\<rparr>" by (simp add: entry_kept_def)
  from assms show "length (results r') = length (results r)" by (simp add: entry_kept_def)
  have "downloaded_files (r\<lparr>results := results r'\<rparr>) = downloaded_files r"
    "status (r\<lparr>results := results r'\<rparr>) = status r"
    "error (r\<lparr>results := results r'\<rparr>) = error r"
    "total_found (r\<lparr>results := results r'\<rparr>) = total_found r"
    by simp_all
  then show "downloaded_files r' = downloaded_files r" "status r' = status r"
    "error r' = error r" "total_found r' = total_found r"
    by (simp_all only: e[symmetric])
qed

lemma list_all2_map_eq:
  "list_all2 P xs ys \<Longrightarrow> (\<And>x y. P x y \<Longrightarrow> f y = f x) \<Longrightarrow> map f ys = map f xs"
  by (induction rule: list_all2_induct) simp_all

text \<open>
  The counts of lines 88, 89 and 401 and the files of line 75 are the same whether they are
  read from the result map before the merge step or, as the code does, after it.
\<close>

lemma summary_counts_unchanged:
  "map (\<lambda>dr. (fst dr, length (results (snd dr)))) (results_after_merge E rm)
     = map (\<lambda>dr. (fst dr, length (results (snd dr)))) rm"
  "total_original (results_after_merge E rm) = total_original rm"
  "concat (map (\<lambda>dr. downloaded_files (snd dr)) (results_after_merge E rm))
     = concat (map (\<lambda>dr. downloaded_files (snd dr)) rm)"
proof -
  note e = results_after_merge_entries[of rm E]
  show "map (\<lambda>dr. (fst dr, length (results (snd dr)))) (results_after_merge E rm)
     = map (\<lambda>dr. (fst dr, length (results (snd dr)))) rm"
    using e by (rule list_all2_map_eq) (simp add: entry_kept_fields)
  have "map (\<lambda>dr. length (results (snd dr))) (results_after_merge E rm)
     = map (\<lambda>dr. length (results (snd dr))) rm"
    using e by (rule list_all2_map_eq) (simp add: entry_kept_fields)
  then show "total_original (results_after_merge E rm) = total_original rm"
    by (simp add: total_original_def)
  have "map (\<lambda>dr. downloaded_files (snd dr)) (results_after_merge E rm)
     = map (\<lambda>dr. downloaded_files (snd dr)) rm"
    using e by (rule list_all2_map_eq) (simp add: entry_kept_fields)
  then show "concat (map (\<lambda>dr. downloaded_files (snd dr)) (results_after_merge E rm))
     = concat (map (\<lambda>dr. downloaded_files (snd dr)) rm)"
    by simp
qed

text \<open>
  When the records of the completed entries are dictionaries, every record of a completed
  entry is found at its place in the result map with its number and title, and with a list
  of sources that has its backend.
\<close>

lemma results_after_merge_records:
  assumes wb: "well_behaved E"
    and dicts: "\<forall>dr \<in> set rm. status (snd dr) = ''completed'' \<longrightarrow>
                  (\<forall>v \<in> set (results (snd dr)). is_dict v)"
    and "distinct (map fst rm)" and "(s, r) \<in> set rm" and "status r = ''completed''"
  shows "\<exists>r'. map_of (results_after_merge E rm) s = Some r' \<and>
           list_all2 (\<lambda>v v'. \<exists>kvs kvs'. v = PDict kvs \<and> v' = PDict kvs' \<and>
                          evolved (tagged s kvs) kvs')
             (results r) (results r')"
proof -
  from collect_patents_dicts[OF dicts] obtain cps where cps: "collect_patents rm = Inr cps"
    by blast
  have "\<forall>p \<in> set cps. multi_valued (dict_get p ''source_databases'' (PList []))"
    using collect_patents_origin[OF cps] tagged_sourced(1) by (metis tagged_def)
  from dedup_tagged[OF wb this] obtain v where v: "dedup_loop E [] [] cps = Inr v"
    and e: "list_all2 (\<lambda>a y. evolved a (fst y)) cps v"
    by blast
  from v have f: "final_contents E cps = map fst v" by (simp add: final_contents_def)
  from e have "list_all2 evolved cps (final_contents E cps)"
    by (simp add: f list_all2_map2)
  from list_all2_map_of[OF write_back_entries[OF cps this] _ assms(3,4)] cps assms(5)
  show ?thesis by (auto simp: results_after_merge_def)
qed

section \<open>A backend that raises\<close>

lemma tagged_keyed:
  assumes "string_keys_ok kvs"
  shows "keyed (dict_set kvs ''source_databases'' (PList [PStr db]))"
    and "calculate_patent_hash E (dict_set kvs ''source_databases'' (PList [PStr db]))
           = calculate_patent_hash E kvs"
    and "sources (dict_set kvs ''source_databases'' (PList [PStr db])) = {PStr db}"
proof -
  let ?p = "dict_set kvs ''source_databases'' (PList [PStr db])"
  have m: "map_of ?p ''patent_number'' = map_of kvs ''patent_number''"
    "map_of ?p ''title'' = map_of kvs ''title''"
    by (simp_all add: dict_set_def update_conv')
  have g: "dict_get ?p ''source_databases'' (PList []) = PList [PStr db]"
    by (simp add: dict_get_dict_set)
  from fingerprint_cong(1)[OF assms m] g show "keyed ?p" by (simp add: keyed_def)
  from assms m show "calculate_patent_hash E ?p = calculate_patent_hash E kvs"
    by (rule fingerprint_cong(2))
  from g show "sources ?p = {PStr db}" by (simp add: sources_def field_members_def)
qed

lemma status_failed_result: "status (failed_result msg) \<noteq> ''completed''"
  by (simp add: failed_result_def)

text \<open>Every run over a non-empty request ends in the summary of line 85.\<close>

lemma run_as_summary:
  assumes "well_behaved E" and "databases \<noteq> []"
  shows "\<exists>rm lg'. search_multiple_databases E bs databases parallel lg
                    = completed_summary E databases rm lg'
           \<and> distinct (map fst rm)
           \<and> set rm \<subseteq> (\<lambda>d. (d, entry_for bs d)) ` set databases
           \<and> (\<forall>d \<in> set databases. bs d \<noteq> None \<longrightarrow> (d, entry_for bs d) \<in> set rm)"
proof (cases parallel)
  case True
  from search_parallel_entries[OF assms, of bs "lg @ [RunStarted databases]"] obtain rm where
    rm: "fst (search_parallel E bs databases (lg @ [RunStarted databases])) = Inr rm"
      "set rm = (\<lambda>d. (d, entry_for bs d)) ` {d \<in> set databases. bs d \<noteq> None}"
      "distinct (map fst rm)"
    by blast
  obtain lg' where "search_parallel E bs databases (lg @ [RunStarted databases]) = (Inr rm, lg')"
    using rm(1) by (cases "search_parallel E bs databases (lg @ [RunStarted databases])") auto
  with True have "search_multiple_databases E bs databases parallel lg
                    = completed_summary E databases rm lg'"
    by (simp add: search_multiple_databases_def Let_def)
  with rm(2,3) show ?thesis by blast
next
  case False
  obtain rm lg' where s: "search_sequential bs databases (lg @ [RunStarted databases]) = (rm, lg')"
    by (cases "search_sequential bs databases (lg @ [RunStarted databases])") auto
  with False have "search_multiple_databases E bs databases parallel lg
                    = completed_summary E databases rm lg'"
    by (simp add: search_multiple_databases_def Let_def)
  moreover from search_sequential_entries[of bs databases "lg @ [RunStarted databases]"] s
  have "set rm = (\<lambda>d. (d, entry_for bs d)) ` set databases" "distinct (map fst rm)"
    by simp_all
  ultimately show ?thesis by blast
qed

lemma completed_entry:
  assumes "(db, r) \<in> set rm" and "set rm \<subseteq> (\<lambda>d. (d, entry_for bs d)) ` set databases"
    and "status r = ''completed''"
  shows "db \<in> set databases \<and> bs db = Some (Returns r)"
proof -
  from assms(1,2) have db: "db \<in> set databases" and r: "r = entry_for bs db" by auto
  have "bs db = Some (Returns r)"
  proof (cases "bs db")
    case None
    with r assms(3) status_failed_result show ?thesis by (simp add: entry_for_def)
  next
    case (Some oc)
    show ?thesis
    proof (cases oc)
      case (Returns r')
      with Some r show ?thesis by (simp add: entry_for_def)
    next
      case (Raises m)
      with Some r assms(3) status_failed_result show ?thesis by (simp add: entry_for_def)
    qed
  qed
  with db show ?thesis by simp
qed

lemma records_are_dicts_entries:
  assumes "records_are_dicts bs databases"
    and "set rm \<subseteq> (\<lambda>d. (d, entry_for bs d)) ` set databases"
  shows "\<forall>dr \<in> set rm. status (snd dr) = ''completed'' \<longrightarrow>
           (\<forall>v \<in> set (results (snd dr)). is_dict v)"
proof (intro ballI impI)
  fix dr v
  assume dr: "dr \<in> set rm" and st: "status (snd dr) = ''completed''"
    and v: "v \<in> set (results (snd dr))"
  from dr have "(fst dr, snd dr) \<in> set rm" by simp
  from completed_entry[OF this assms(2) st]
  have "fst dr \<in> set databases" "bs (fst dr) = Some (Returns (snd dr))" by simp_all
  with assms(1) st have "list_all is_dict (results (snd dr))"
    by (auto simp: records_are_dicts_def list_all_iff)
  with v show "is_dict v" by (simp add: list_all_iff)
qed

lemma records_have_string_keys_entries:
  assumes "records_have_string_keys bs databases"
    and "s \<in> set databases" and "bs s = Some (Returns r)" and "status r = ''completed''"
    and "v \<in> set (results r)"
  shows "\<exists>kvs. v = PDict kvs \<and> string_keys_ok kvs"
proof -
  from assms(1-4)
  have "list_all (\<lambda>v. case v of PDict kvs \<Rightarrow> string_keys_ok kvs | _ \<Rightarrow> False) (results r)"
    by (auto simp: records_have_string_keys_def list_all_iff)
  with assms(5) have "case v of PDict kvs \<Rightarrow> string_keys_ok kvs | _ \<Rightarrow> False"
    by (simp add: list_all_iff)
  then show ?thesis by (simp split: pyval.splits)
qed

text \<open>
  C7, as amended. In a run, parallel or sequential, in which the call of a requested
  backend raises an exception: the run completes; the result map has for that backend the
  failed entry with the message of the exception and no records; every other requested
  backend that returns has its entry in the map, with its status, error, count and files
  and as many records as it returned.

  The records are in the merged results when every record of the completed backends is a
  dictionary (when one is not, the merge step fails and the merged results are empty).
  Then each record of a completed backend is found at its place in the result map, with
  its number and title and with a list of sources that has the backend; and for each such
  record some merged record has grown from a record of a completed backend (the record
  itself or another one) whose fingerprint, as tagged, is that of the record: it has the
  number and title of that one and lists its backend. When moreover numbers and titles are
  strings, some merged record has the fingerprint of the record and lists the backend of
  the record among its sources.
\<close>

theorem backend_exception_is_isolated:
  assumes "well_behaved E" and "d \<in> set databases" and "bs d = Some (Raises msg)"
  shows "run_status (search_multiple_databases E bs databases parallel lg) = ''completed''
       \<and> (\<exists>rm. results_by_database (search_multiple_databases E bs databases parallel lg)
                  = Some rm
              \<and> map_of rm d = Some (failed_result msg)
              \<and> (\<forall>s r. s \<in> set databases \<and> bs s = Some (Returns r)
                     \<longrightarrow> (\<exists>r'. map_of rm s = Some r' \<and> entry_kept r r'))
              \<and> (records_are_dicts bs databases \<longrightarrow>
                   (\<forall>s r. s \<in> set databases \<and> bs s = Some (Returns r) \<and>
                          status r = ''completed''
                     \<longrightarrow> (\<exists>r'. map_of rm s = Some r' \<and>
                            list_all2 (\<lambda>v v'. \<exists>kvs kvs'. v = PDict kvs \<and> v' = PDict kvs' \<and>
                                           evolved (tagged s kvs) kvs')
                              (results r) (results r')))))
       \<and> status (failed_result msg) = ''failed''
       \<and> error (failed_result msg) = Some msg
       \<and> results (failed_result msg) = []
       \<and> (records_are_dicts bs databases \<longrightarrow>
            (\<forall>s r kvs. s \<in> set databases \<and> bs s = Some (Returns r) \<and>
                   status r = ''completed'' \<and> PDict kvs \<in> set (results r)
               \<longrightarrow> (\<exists>m \<in> set (merged_results
                                (search_multiple_databases E bs databases parallel lg)).
                      \<exists>s' r' kvs'. s' \<in> set databases \<and> bs s' = Some (Returns r') \<and>
                        status r' = ''completed'' \<and> PDict kvs' \<in> set (results r') \<and>
                        calculate_patent_hash E (tagged s' kvs')
                          = calculate_patent_hash E (tagged s kvs) \<and>
                        evolved (tagged s' kvs') m)))
       \<and> (records_have_string_keys bs databases \<longrightarrow>
            (\<forall>s r kvs. s \<in> set databases \<and> bs s = Some (Returns r) \<and>
                   status r = ''completed'' \<and> PDict kvs \<in> set (results r)
               \<longrightarrow> (\<exists>m \<in> set (merged_results
                                (search_multiple_databases E bs databases parallel lg)).
                      calculate_patent_hash E m = calculate_patent_hash E kvs \<and>
                      PStr s \<in> sources m)))"
proof -
  let ?run = "search_multiple_databases E bs databases parallel lg"
  from assms(2) have ne: "databases \<noteq> []" by auto
  from run_as_summary[OF assms(1) ne, of bs parallel lg] obtain rm lg' where
    run: "?run = completed_summary E databases rm lg'"
    and dst: "distinct (map fst rm)"
    and sub: "set rm \<subseteq> (\<lambda>d. (d, entry_for bs d)) ` set databases"
    and sup: "\<forall>d \<in> set databases. bs d \<noteq> None \<longrightarrow> (d, entry_for bs d) \<in> set rm"
    by blast
  let ?rm = "results_after_merge E rm"
  have st: "run_status ?run = ''completed''"
    by (simp add: run completed_summary_def Let_def)
  have rbd: "results_by_database ?run = Some ?rm"
    by (simp add: run completed_summary_def Let_def)
  have mem: "(s, r) \<in> set rm" if "s \<in> set databases" "bs s = Some (Returns r)" for s r
    using sup that by (auto simp: entry_for_def)
  have fd: "map_of ?rm d = Some (failed_result msg)"
  proof -
    from sup assms(2,3) have "(d, failed_result msg) \<in> set rm" by (auto simp: entry_for_def)
    from results_after_merge_entry[OF dst this, of E] status_failed_result[of msg]
    show ?thesis by (auto simp: entry_kept_def)
  qed
  have ret: "\<forall>s r. s \<in> set databases \<and> bs s = Some (Returns r)
               \<longrightarrow> (\<exists>r'. map_of ?rm s = Some r' \<and> entry_kept r r')"
    using results_after_merge_entry[OF dst mem] by blast
  have recs: "\<forall>s r. s \<in> set databases \<and> bs s = Some (Returns r) \<and> status r = ''completed''
                     \<longrightarrow> (\<exists>r'. map_of ?rm s = Some r' \<and>
                            list_all2 (\<lambda>v v'. \<exists>kvs kvs'. v = PDict kvs \<and> v' = PDict kvs' \<and>
                                           evolved (tagged s kvs) kvs')
                              (results r) (results r'))"
    if H: "records_are_dicts bs databases"
    using results_after_merge_records[OF assms(1) records_are_dicts_entries[OF H sub] dst mem]
    by blast
  have B: "\<exists>rm. results_by_database ?run = Some rm
              \<and> map_of rm d = Some (failed_result msg)
              \<and> (\<forall>s r. s \<in> set databases \<and> bs s = Some (Returns r)
                     \<longrightarrow> (\<exists>r'. map_of rm s = Some r' \<and> entry_kept r r'))
              \<and> (records_are_dicts bs databases \<longrightarrow>
                   (\<forall>s r. s \<in> set databases \<and> bs s = Some (Returns r) \<and>
                          status r = ''completed''
                     \<longrightarrow> (\<exists>r'. map_of rm s = Some r' \<and>
                            list_all2 (\<lambda>v v'. \<exists>kvs kvs'. v = PDict kvs \<and> v' = PDict kvs' \<and>
                                           evolved (tagged s kvs) kvs')
                              (results r) (results r'))))"
    using rbd fd ret recs by (intro exI[of _ ?rm] conjI impI)
  have G: "\<exists>m \<in> set (merged_results ?run).
             \<exists>s' r' kvs'. s' \<in> set databases \<and> bs s' = Some (Returns r') \<and>
               status r' = ''completed'' \<and> PDict kvs' \<in> set (results r') \<and>
               calculate_patent_hash E (tagged s' kvs') = calculate_patent_hash E (tagged s kvs) \<and>
               evolved (tagged s' kvs') m"
    if H: "records_are_dicts bs databases"
      and s: "s \<in> set databases" "bs s = Some (Returns r)" "status r = ''completed''"
        "PDict kvs \<in> set (results r)"
    for s r kvs
  proof -
    from collect_patents_dicts[OF records_are_dicts_entries[OF H sub]] obtain ps where
      ps: "collect_patents rm = Inr ps"
      by blast
    have sourced: "\<forall>p \<in> set ps. multi_valued (dict_get p ''source_databases'' (PList []))"
      using collect_patents_origin[OF ps] tagged_sourced(1) by (metis tagged_def)
    from collect_patents_mem[OF ps mem[OF s(1,2)] s(3,4)]
    have t: "tagged s kvs \<in> set ps" by (simp add: tagged_def)
    from dedup_tagged[OF assms(1) sourced] obtain v where
      v: "dedup_loop E [] [] ps = Inr v"
      and c: "\<forall>p \<in> set ps. \<exists>q \<in> set ps. \<exists>m. (m, True) \<in> set v \<and>
               calculate_patent_hash E q = calculate_patent_hash E p \<and> evolved q m"
      by blast
    from c t obtain q m where q: "q \<in> set ps" "(m, True) \<in> set v"
      "calculate_patent_hash E q = calculate_patent_hash E (tagged s kvs)" "evolved q m"
      by blast
    from collect_patents_origin[OF ps q(1)] obtain s' r' kvs' where
      o: "(s', r') \<in> set rm" "status r' = ''completed''" "PDict kvs' \<in> set (results r')"
        "q = tagged s' kvs'"
      by (auto simp: tagged_def)
    from completed_entry[OF o(1) sub o(2)]
    have b: "s' \<in> set databases" "bs s' = Some (Returns r')" by simp_all
    from t have "ps \<noteq> []" by auto
    with v have "merged_results ?run = map fst (filter snd v)"
      by (simp add: run completed_summary_def merge_and_deduplicate_results_def ps
            deduplicate_patents_def Let_def)
    with q(2) have "m \<in> set (merged_results ?run)" by force
    with b o(2,3) q(3,4) o(4) show ?thesis by blast
  qed
  have S: "\<exists>m \<in> set (merged_results ?run).
                calculate_patent_hash E m = calculate_patent_hash E kvs \<and> PStr s \<in> sources m"
    if H: "records_have_string_keys bs databases"
      and s: "s \<in> set databases" "bs s = Some (Returns r)" "status r = ''completed''"
        "PDict kvs \<in> set (results r)"
    for s r kvs
  proof -
    have good: "\<exists>kvs. v = PDict kvs \<and> string_keys_ok kvs"
      if "(db, r') \<in> set rm" "status r' = ''completed''" "v \<in> set (results r')" for db r' v
      using completed_entry[OF that(1) sub that(2)] that(2,3)
        records_have_string_keys_entries[OF H] by blast
    then have "\<forall>dr \<in> set rm. status (snd dr) = ''completed'' \<longrightarrow>
                 (\<forall>v \<in> set (results (snd dr)). is_dict v)"
      by force
    from collect_patents_dicts[OF this] obtain ps where ps: "collect_patents rm = Inr ps"
      by blast
    have keyed: "\<forall>p \<in> set ps. keyed p"
    proof
      fix p assume "p \<in> set ps"
      from collect_patents_origin[OF ps this] obtain db r' kvs' where
        o: "(db, r') \<in> set rm" "status r' = ''completed''" "PDict kvs' \<in> set (results r')"
          "p = dict_set kvs' ''source_databases'' (PList [PStr db])"
        by blast
      from good[OF o(1-3)] have "string_keys_ok kvs'" by simp
      with o(4) show "keyed p" by (simp add: tagged_keyed(1))
    qed
    from collect_patents_mem[OF ps mem[OF s(1,2)] s(3,4)]
    have m: "dict_set kvs ''source_databases'' (PList [PStr s]) \<in> set ps" .
    from good[OF mem[OF s(1,2)] s(3,4)] have sk: "string_keys_ok kvs" by simp
    from deduplicate_patents_keyed[OF assms(1) keyed m] obtain m where
      m: "m \<in> set (deduplicate_patents E ps)"
        "calculate_patent_hash E m
           = calculate_patent_hash E (dict_set kvs ''source_databases'' (PList [PStr s]))"
        "sources (dict_set kvs ''source_databases'' (PList [PStr s])) \<subseteq> sources m"
      by blast
    have "merged_results ?run = deduplicate_patents E ps"
      by (simp add: run completed_summary_def merge_and_deduplicate_results_def ps Let_def)
    with m tagged_keyed(2)[OF sk, of E s] tagged_keyed(3)[OF sk, of s] show ?thesis by auto
  qed
  have F: "status (failed_result msg) = ''failed''" "error (failed_result msg) = Some msg"
    "results (failed_result msg) = []"
    by (simp_all add: failed_result_def)
  from G have G': "records_are_dicts bs databases \<longrightarrow>
            (\<forall>s r kvs. s \<in> set databases \<and> bs s = Some (Returns r) \<and>
                   status r = ''completed'' \<and> PDict kvs \<in> set (results r)
               \<longrightarrow> (\<exists>m \<in> set (merged_results ?run).
                      \<exists>s' r' kvs'. s' \<in> set databases \<and> bs s' = Some (Returns r') \<and>
                        status r' = ''completed'' \<and> PDict kvs' \<in> set (results r') \<and>
                        calculate_patent_hash E (tagged s' kvs')
                          = calculate_patent_hash E (tagged s kvs) \<and>
                        evolved (tagged s' kvs') m))"
    by blast
  from S have S': "records_have_string_keys bs databases \<longrightarrow>
            (\<forall>s r kvs. s \<in> set databases \<and> bs s = Some (Returns r) \<and>
                   status r = ''completed'' \<and> PDict kvs \<in> set (results r)
               \<longrightarrow> (\<exists>m \<in> set (merged_results ?run).
                      calculate_patent_hash E m = calculate_patent_hash E kvs \<and>
                      PStr s \<in> sources m))"
    by blast
  from st B F G' S' show ?thesis by (intro conjI)
qed

text \<open>
  The backend \<^verbatim>\<open>twpat\<close> raises, \<^verbatim>\<open>uspto\<close> returns two records of one patent. The
  parallel run completes; \<^verbatim>\<open>twpat\<close> has the failed entry; the entry of \<^verbatim>\<open>uspto\<close> has
  its two records, the first with the tag and what was merged into it, the second with
  the tag; the merged results are the first record, whose fingerprint is that of both, and
  it is attributed to \<^verbatim>\<open>uspto\<close>; the second record is a duplicate of a record that the
  merged record has grown from.
\<close>

theorem backend_exception_is_isolated_witness:
  "run_status (search_multiple_databases sample_env
       [''twpat'' \<mapsto> Raises ''driver crashed'',
        ''uspto'' \<mapsto> Returns \<lparr>status = ''completed'', error = None, total_found = 2,
           results = [PDict [(''patent_number'', PStr ''US1234567''), (''title'', PStr ''Widget'')],
                      PDict [(''patent_number'', PStr ''1234567''), (''title'', PStr ''widget ''),
                             (''abstract'', PStr ''A gadget.'')]],
           downloaded_files = []\<rparr>]
       [''twpat'', ''uspto''] True []) = ''completed''
   \<and> results_by_database (search_multiple_databases sample_env
       [''twpat'' \<mapsto> Raises ''driver crashed'',
        ''uspto'' \<mapsto> Returns \<lparr>status = ''completed'', error = None, total_found = 2,
           results = [PDict [(''patent_number'', PStr ''US1234567''), (''title'', PStr ''Widget'')],
                      PDict [(''patent_number'', PStr ''1234567''), (''title'', PStr ''widget ''),
                             (''abstract'', PStr ''A gadget.'')]],
           downloaded_files = []\<rparr>]
       [''twpat'', ''uspto''] True [])
     = Some [(''twpat'', \<lparr>status = ''failed'', error = Some ''driver crashed'', total_found = 0,
                           results = [], downloaded_files = []\<rparr>),
             (''uspto'', \<lparr>status = ''completed'', error = None, total_found = 2,
                results =
                  [PDict [(''patent_number'', PStr ''US1234567''), (''title'', PStr ''Widget''),
                          (''source_databases'', PList [PStr ''uspto'']),
                          (''inventors'', PList []), (''applicants'', PList []),
                          (''ipc_classes'', PList []), (''abstract'', PStr ''A gadget.''),
                          (''images'', PList [])],
                   PDict [(''patent_number'', PStr ''1234567''), (''title'', PStr ''widget ''),
                          (''abstract'', PStr ''A gadget.''),
                          (''source_databases'', PList [PStr ''uspto''])]],
                downloaded_files = []\<rparr>)]
   \<and> merged_results (search_multiple_databases sample_env
       [''twpat'' \<mapsto> Raises ''driver crashed'',
        ''uspto'' \<mapsto> Returns \<lparr>status = ''completed'', error = None, total_found = 2,
           results = [PDict [(''patent_number'', PStr ''US1234567''), (''title'', PStr ''Widget'')],
                      PDict [(''patent_number'', PStr ''1234567''), (''title'', PStr ''widget ''),
                             (''abstract'', PStr ''A gadget.'')]],
           downloaded_files = []\<rparr>]
       [''twpat'', ''uspto''] True [])
     = [[(''patent_number'', PStr ''US1234567''), (''title'', PStr ''Widget''),
         (''source_databases'', PList [PStr ''uspto'']),
         (''inventors'', PList []), (''applicants'', PList []),
         (''ipc_classes'', PList []), (''abstract'', PStr ''A gadget.''),
         (''images'', PList [])]]
   \<and> (\<exists>m \<in> set (merged_results (search_multiple_databases sample_env
       [''twpat'' \<mapsto> Raises ''driver crashed'',
        ''uspto'' \<mapsto> Returns \<lparr>status = ''completed'', error = None, total_found = 2,
           results = [PDict [(''patent_number'', PStr ''US1234567''), (''title'', PStr ''Widget'')],
                      PDict [(''patent_number'', PStr ''1234567''), (''title'', PStr ''widget ''),
                             (''abstract'', PStr ''A gadget.'')]],
           downloaded_files = []\<rparr>]
       [''twpat'', ''uspto''] True [])).
          calculate_patent_hash sample_env m = ''1234567|widget'' \<and> PStr ''uspto'' \<in> sources m)
   \<and> (\<exists>m \<in> set (merged_results (search_multiple_databases sample_env
       [''twpat'' \<mapsto> Raises ''driver crashed'',
        ''uspto'' \<mapsto> Returns \<lparr>status = ''completed'', error = None, total_found = 2,
           results = [PDict [(''patent_number'', PStr ''US1234567''), (''title'', PStr ''Widget'')],
                      PDict [(''patent_number'', PStr ''1234567''), (''title'', PStr ''widget ''),
                             (''abstract'', PStr ''A gadget.'')]],
           downloaded_files = []\<rparr>]
       [''twpat'', ''uspto''] True [])).
        \<exists>kvs. calculate_patent_hash sample_env (tagged ''uspto'' kvs)
                 = calculate_patent_hash sample_env
                     (tagged ''uspto''
                        [(''patent_number'', PStr ''1234567''), (''title'', PStr ''widget ''),
                         (''abstract'', PStr ''A gadget.'')]) \<and>
              evolved (tagged ''uspto'' kvs) m)"
proof -
  let ?a = "[(''patent_number'', PStr ''US1234567''), (''title'', PStr ''Widget'')]"
  let ?b = "[(''patent_number'', PStr ''1234567''), (''title'', PStr ''widget ''),
             (''abstract'', PStr ''A gadget.'')]"
  let ?r = "\<lparr>status = ''completed'', error = None, total_found = 2,
             results = [PDict ?a, PDict ?b], downloaded_files = []\<rparr>"
  let ?bs = "[''twpat'' \<mapsto> Raises ''driver crashed'', ''uspto'' \<mapsto> Returns ?r]"
  let ?ds = "[''twpat'', ''uspto'']"
  let ?run = "search_multiple_databases sample_env ?bs ?ds True []"
  let ?ta = "[(''patent_number'', PStr ''US1234567''), (''title'', PStr ''Widget''),
              (''source_databases'', PList [PStr ''uspto''])]"
  let ?tb = "[(''patent_number'', PStr ''1234567''), (''title'', PStr ''widget ''),
              (''abstract'', PStr ''A gadget.''), (''source_databases'', PList [PStr ''uspto''])]"
  let ?m = "[(''patent_number'', PStr ''US1234567''), (''title'', PStr ''Widget''),
             (''source_databases'', PList [PStr ''uspto'']),
             (''inventors'', PList []), (''applicants'', PList []),
             (''ipc_classes'', PList []), (''abstract'', PStr ''A gadget.''),
             (''images'', PList [])]"
  let ?rm = "[(''twpat'', \<lparr>status = ''failed'', error = Some ''driver crashed'',
                             total_found = 0, results = [], downloaded_files = []\<rparr>),
              (''uspto'', ?r)]"
  let ?lg = "[RunStarted ?ds, ParallelMode, SearchFailed ''twpat'' ''driver crashed'',
              SearchCompleted ''uspto'' 2]"
  have ka: "string_keys_ok ?a" and kb: "string_keys_ok ?b"
    by (simp_all add: string_keys_ok_def dict_get_def)
  have ha: "calculate_patent_hash sample_env ?a = ''1234567|widget''"
    by (simp add: fingerprint_ok[OF ka] normalized_number_def normalized_title_def dict_get_def
          normalize_number_examples sample_env_simps)
  have h: "calculate_patent_hash sample_env ?ta = calculate_patent_hash sample_env ?tb"
    by (simp add: calculate_patent_hash_def hash_string_def dict_get_def
          normalize_number_examples)
  have run: "?run = completed_summary sample_env ?ds ?rm ?lg"
    by (simp add: search_multiple_databases_def search_parallel_def parallel_collect_def
          sample_env_simps failed_result_def Let_def)
  have c: "collect_patents ?rm = Inr [?ta, ?tb]"
    by (simp add: dict_set_def)
  have d: "dedup_loop sample_env [] [] [?ta, ?tb] = Inr [(?m, True), (?tb, False)]"
    by (simp add: Let_def h union_field_def py_union_def merge_patent_info_def
          merge_patent_info_try_def fill_field_def dict_get_def dict_set_def sample_env_simps)
  have 2: "results_by_database ?run
             = Some [(''twpat'', \<lparr>status = ''failed'', error = Some ''driver crashed'',
                                  total_found = 0, results = [], downloaded_files = []\<rparr>),
                     (''uspto'', \<lparr>status = ''completed'', error = None, total_found = 2,
                                  results = [PDict ?m, PDict ?tb], downloaded_files = []\<rparr>)]"
    unfolding run completed_summary_def Let_def results_after_merge_def c sum.case
      final_contents_def d
    by simp
  have 3: "merged_results ?run = [?m]"
    unfolding run completed_summary_def Let_def merge_and_deduplicate_results_def c sum.case
      deduplicate_patents_def d
    by simp
  have mem: "''twpat'' \<in> set ?ds" and mem': "''uspto'' \<in> set ?ds"
    by simp_all
  have rs: "?bs ''twpat'' = Some (Raises ''driver crashed'')"
    and rt: "?bs ''uspto'' = Some (Returns ?r)"
    by simp_all
  have H: "records_have_string_keys ?bs ?ds"
    by (simp add: records_have_string_keys_def ka kb)
  note T = backend_exception_is_isolated
             [where E = sample_env and d = "''twpat''" and databases = ?ds
                and bs = ?bs and msg = "''driver crashed''" and parallel = True and lg = "[]",
              OF well_behaved_sample_env mem rs]
  have 1: "run_status ?run = ''completed''"
    using T by (rule conjunct1)
  have st: "status ?r = ''completed''" and rec: "PDict ?a \<in> set (results ?r)"
    by simp_all
  from T[THEN conjunct2, THEN conjunct2, THEN conjunct2, THEN conjunct2, THEN conjunct2,
         THEN conjunct2, THEN mp, OF H]
  have "\<forall>s r kvs. s \<in> set ?ds \<and> ?bs s = Some (Returns r) \<and>
                   status r = ''completed'' \<and> PDict kvs \<in> set (results r)
                 \<longrightarrow> (\<exists>m \<in> set (merged_results ?run).
                        calculate_patent_hash sample_env m = calculate_patent_hash sample_env kvs \<and>
                        PStr s \<in> sources m)" .
  with mem' rt st rec
  have "\<exists>m \<in> set (merged_results ?run).
          calculate_patent_hash sample_env m = calculate_patent_hash sample_env ?a \<and>
          PStr ''uspto'' \<in> sources m"
    by blast
  then have 4: "\<exists>m \<in> set (merged_results ?run).
          calculate_patent_hash sample_env m = ''1234567|widget'' \<and> PStr ''uspto'' \<in> sources m"
    by (simp only: ha)
  have D: "records_are_dicts ?bs ?ds"
    by (simp add: records_are_dicts_def)
  have rec': "PDict ?b \<in> set (results ?r)"
    by simp
  from T[THEN conjunct2, THEN conjunct2, THEN conjunct2, THEN conjunct2, THEN conjunct2,
         THEN conjunct1, THEN mp, OF D]
  have "\<forall>s r kvs. s \<in> set ?ds \<and> ?bs s = Some (Returns r) \<and>
                   status r = ''completed'' \<and> PDict kvs \<in> set (results r)
                 \<longrightarrow> (\<exists>m \<in> set (merged_results ?run).
                        \<exists>s' r' kvs'. s' \<in> set ?ds \<and> ?bs s' = Some (Returns r') \<and>
                          status r' = ''completed'' \<and> PDict kvs' \<in> set (results r') \<and>
                          calculate_patent_hash sample_env (tagged s' kvs')
                            = calculate_patent_hash sample_env (tagged s kvs) \<and>
                          evolved (tagged s' kvs') m)" .
  with mem' rt st rec' obtain m s' r' kvs' where
    g: "m \<in> set (merged_results ?run)" "s' \<in> set ?ds" "?bs s' = Some (Returns r')"
      "calculate_patent_hash sample_env (tagged s' kvs')
         = calculate_patent_hash sample_env (tagged ''uspto'' ?b)"
      "evolved (tagged s' kvs') m"
    by blast
  from g(2,3) have "s' = ''uspto''" by (auto split: if_splits)
  with g(1,4,5) have 5: "\<exists>m \<in> set (merged_results ?run).
        \<exists>kvs. calculate_patent_hash sample_env (tagged ''uspto'' kvs)
                 = calculate_patent_hash sample_env (tagged ''uspto'' ?b) \<and>
              evolved (tagged ''uspto'' kvs) m"
    by blast
  from 1 2 3 4 5 show ?thesis by (intro conjI)
qed

text \<open>
  Against C7 as stated. \<^verbatim>\<open>twpat\<close> raises and \<^verbatim>\<open>uspto\<close> returns a record and, after it,
  \<^verbatim>\<open>None\<close>: in both modes the run completes, the entry of \<^verbatim>\<open>uspto\<close> has its two
  records (the first with the tag), and the merged results are empty, so the record that
  \<^verbatim>\<open>uspto\<close> returned is not in them.
\<close>

theorem sibling_records_lost_when_merge_fails:
  "merged_results (search_multiple_databases sample_env
       [''twpat'' \<mapsto> Raises ''driver crashed'',
        ''uspto'' \<mapsto> Returns \<lparr>status = ''completed'', error = None, total_found = 2,
           results = [PDict [(''patent_number'', PStr ''US1234567''), (''title'', PStr ''Widget'')],
                      PNone],
           downloaded_files = []\<rparr>]
       [''twpat'', ''uspto''] True []) = []
   \<and> merged_results (search_multiple_databases sample_env
       [''twpat'' \<mapsto> Raises ''driver crashed'',
        ''uspto'' \<mapsto> Returns \<lparr>status = ''completed'', error = None, total_found = 2,
           results = [PDict [(''patent_number'', PStr ''US1234567''), (''title'', PStr ''Widget'')],
                      PNone],
           downloaded_files = []\<rparr>]
       [''twpat'', ''uspto''] False []) = []
   \<and> run_status (search_multiple_databases sample_env
       [''twpat'' \<mapsto> Raises ''driver crashed'',
        ''uspto'' \<mapsto> Returns \<lparr>status = ''completed'', error = None, total_found = 2,
           results = [PDict [(''patent_number'', PStr ''US1234567''), (''title'', PStr ''Widget'')],
                      PNone],
           downloaded_files = []\<rparr>]
       [''twpat'', ''uspto''] True []) = ''completed''
   \<and> results_by_database (search_multiple_databases sample_env
       [''twpat'' \<mapsto> Raises ''driver crashed'',
        ''uspto'' \<mapsto> Returns \<lparr>status = ''completed'', error = None, total_found = 2,
           results = [PDict [(''patent_number'', PStr ''US1234567''), (''title'', PStr ''Widget'')],
                      PNone],
           downloaded_files = []\<rparr>]
       [''twpat'', ''uspto''] True [])
     = Some [(''twpat'', \<lparr>status = ''failed'', error = Some ''driver crashed'', total_found = 0,
                           results = [], downloaded_files = []\<rparr>),
             (''uspto'', \<lparr>status = ''completed'', error = None, total_found = 2,
                results =
                  [PDict [(''patent_number'', PStr ''US1234567''), (''title'', PStr ''Widget''),
                          (''source_databases'', PList [PStr ''uspto''])],
                   PNone],
                downloaded_files = []\<rparr>)]"
  by (simp add: search_multiple_databases_def search_parallel_def parallel_collect_def
        search_sequential_def sequential_step_def sample_env_simps completed_summary_def
        merge_and_deduplicate_results_def results_after_merge_def failed_result_def
        dict_set_def Let_def)

section \<open>Merging well-typed records\<close>

lemma map_of_dict_set: "map_of (dict_set d k v) k' = (if k' = k then Some v else map_of d k')"
  by (simp add: dict_set_def update_conv')

lemma map_of_fill_field:
  "map_of (fill_field k a b) k' =
     (if k' = k \<and> \<not> truthy (dict_get a k PNone) \<and> truthy (dict_get b k PNone)
      then Some (dict_get b k PNone) else map_of a k')"
  by (simp add: fill_field_def map_of_dict_set)

lemma well_typed_keyed: "well_typed p \<Longrightarrow> keyed p"
  by (simp add: well_typed_def keyed_def list_fields_ok_def list_keys_def)

lemma list_fields_ok_iff:
  "list_fields_ok p \<longleftrightarrow> (\<forall>k \<in> set list_keys. multi_valued (dict_get p k (PList [])))"
  by (simp add: list_fields_ok_def list_all_iff)

lemma union_field_ok:
  assumes "well_behaved E"
    and "multi_valued (dict_get a k (PList []))" and "multi_valued (dict_get b k (PList []))"
  shows "\<exists>zs. union_field E k a b = Inr (dict_set a k (PList zs)) \<and> list_all hashable zs \<and>
           set zs = field_members a k \<union> field_members b k"
proof -
  from assms(2,3) obtain xs ys where xs: "dict_get a k (PList []) = PList xs" "list_all hashable xs"
    and ys: "dict_get b k (PList []) = PList ys" "list_all hashable ys"
    by (meson multi_valued_PList)
  have "union_field E k a b = Inr (dict_set a k (PList (set_iteration E (xs @ ys))))"
    using xs(1) ys(1) xs(2) ys(2) by (rule union_field_lists)
  moreover have "list_all hashable (set_iteration E (xs @ ys))"
    using hashable_set_iteration[OF assms(1), of "xs @ ys"] xs ys by simp
  moreover have "set (set_iteration E (xs @ ys)) = field_members a k \<union> field_members b k"
    using members_set_iteration[OF assms(1), of "xs @ ys"] xs ys by (simp add: field_members_def)
  ultimately show ?thesis by blast
qed

text \<open>
  The merge of two records whose multi-valued fields are well typed, key by key: a
  multi-valued field becomes a list of the members of both, a scalar field is filled
  forward, every other key keeps its value.
\<close>

lemma absorb_well_typed:
  assumes wb: "well_behaved E" and q: "list_fields_ok q" and p: "list_fields_ok p"
  shows "\<exists>m. absorb E q p = m \<and>
           (\<forall>k \<in> set list_keys. \<exists>zs. map_of m k = Some (PList zs) \<and> list_all hashable zs \<and>
                 set zs = field_members q k \<union> field_members p k) \<and>
           (\<forall>k. k \<notin> set list_keys \<longrightarrow>
                 map_of m k =
                   (if k \<in> {''abstract'', ''claims'', ''description''} \<and>
                       \<not> truthy (dict_get q k PNone) \<and> truthy (dict_get p k PNone)
                    then Some (dict_get p k PNone) else map_of q k))"
proof -
  have mv: "\<And>k d. k \<in> set list_keys \<Longrightarrow> multi_valued (dict_get p k (PList []))"
    using p by (simp add: list_fields_ok_iff)
  have mq: "\<And>k. k \<in> set list_keys \<Longrightarrow> multi_valued (dict_get q k (PList []))"
    using q by (simp add: list_fields_ok_iff)
  have g: "\<And>a b k d. map_of a k = map_of b k \<Longrightarrow> dict_get a k d = dict_get b k d"
    by (simp add: dict_get_def)
  have fm: "\<And>a b k. map_of a k = map_of b k \<Longrightarrow> field_members a k = field_members b k"
    by (simp add: field_members_def dict_get_def)
  \<comment> \<open>the sources\<close>
  from union_field_ok[OF wb mq mv, of "''source_databases''"] obtain z0 where
    u0: "union_field E ''source_databases'' q p = Inr (dict_set q ''source_databases'' (PList z0))"
    and z0: "list_all hashable z0"
      "set z0 = field_members q ''source_databases'' \<union> field_members p ''source_databases''"
    by (auto simp: list_keys_def)
  define p0 where "p0 = dict_set q ''source_databases'' (PList z0)"
  have m0: "\<And>k. map_of p0 k = (if k = ''source_databases'' then Some (PList z0) else map_of q k)"
    by (simp add: p0_def map_of_dict_set)
  \<comment> \<open>the inventors\<close>
  have "multi_valued (dict_get p0 ''inventors'' (PList []))"
    using mq[of "''inventors''"] g[of p0 "''inventors''" q] by (simp add: m0 list_keys_def)
  from union_field_ok[OF wb this mv] obtain z1 where
    u1: "union_field E ''inventors'' p0 p = Inr (dict_set p0 ''inventors'' (PList z1))"
    and z1: "list_all hashable z1"
      "set z1 = field_members p0 ''inventors'' \<union> field_members p ''inventors''"
    by (auto simp: list_keys_def)
  define p1 where "p1 = dict_set p0 ''inventors'' (PList z1)"
  have m1: "\<And>k. map_of p1 k = (if k = ''inventors'' then Some (PList z1) else map_of p0 k)"
    by (simp add: p1_def map_of_dict_set)
  \<comment> \<open>the applicants\<close>
  have "multi_valued (dict_get p1 ''applicants'' (PList []))"
    using mq[of "''applicants''"] g[of p1 "''applicants''" q] by (simp add: m1 m0 list_keys_def)
  from union_field_ok[OF wb this mv] obtain z2 where
    u2: "union_field E ''applicants'' p1 p = Inr (dict_set p1 ''applicants'' (PList z2))"
    and z2: "list_all hashable z2"
      "set z2 = field_members p1 ''applicants'' \<union> field_members p ''applicants''"
    by (auto simp: list_keys_def)
  define p2 where "p2 = dict_set p1 ''applicants'' (PList z2)"
  have m2: "\<And>k. map_of p2 k = (if k = ''applicants'' then Some (PList z2) else map_of p1 k)"
    by (simp add: p2_def map_of_dict_set)
  \<comment> \<open>the classes\<close>
  have "multi_valued (dict_get p2 ''ipc_classes'' (PList []))"
    using mq[of "''ipc_classes''"] g[of p2 "''ipc_classes''" q]
    by (simp add: m2 m1 m0 list_keys_def)
  from union_field_ok[OF wb this mv] obtain z3 where
    u3: "union_field E ''ipc_classes'' p2 p = Inr (dict_set p2 ''ipc_classes'' (PList z3))"
    and z3: "list_all hashable z3"
      "set z3 = field_members p2 ''ipc_classes'' \<union> field_members p ''ipc_classes''"
    by (auto simp: list_keys_def)
  define p3 where "p3 = dict_set p2 ''ipc_classes'' (PList z3)"
  have m3: "\<And>k. map_of p3 k = (if k = ''ipc_classes'' then Some (PList z3) else map_of p2 k)"
    by (simp add: p3_def map_of_dict_set)
  \<comment> \<open>the scalar fields\<close>
  define p4 where "p4 = fill_field ''abstract'' p3 p"
  define p5 where "p5 = fill_field ''claims'' p4 p"
  define p6 where "p6 = fill_field ''description'' p5 p"
  have g3: "\<And>k d. k \<notin> set list_keys \<Longrightarrow> dict_get p3 k d = dict_get q k d"
    by (rule g) (auto simp: m3 m2 m1 m0 list_keys_def)
  have m4: "\<And>k. map_of p4 k =
      (if k = ''abstract'' \<and> \<not> truthy (dict_get q k PNone) \<and> truthy (dict_get p k PNone)
       then Some (dict_get p k PNone) else map_of p3 k)"
    using g3[of "''abstract''" PNone] by (auto simp: p4_def map_of_fill_field list_keys_def)
  have g4: "dict_get p4 ''claims'' PNone = dict_get q ''claims'' PNone"
    using g3[of "''claims''" PNone] g[of p4 "''claims''" p3 PNone] by (simp add: m4 list_keys_def)
  have m5: "\<And>k. map_of p5 k =
      (if k = ''claims'' \<and> \<not> truthy (dict_get q k PNone) \<and> truthy (dict_get p k PNone)
       then Some (dict_get p k PNone) else map_of p4 k)"
    using g4 by (auto simp: p5_def map_of_fill_field)
  have g5: "dict_get p5 ''description'' PNone = dict_get q ''description'' PNone"
    using g3[of "''description''" PNone] g[of p5 "''description''" p3 PNone]
    by (simp add: m5 m4 list_keys_def)
  have m6: "\<And>k. map_of p6 k =
      (if k = ''description'' \<and> \<not> truthy (dict_get q k PNone) \<and> truthy (dict_get p k PNone)
       then Some (dict_get p k PNone) else map_of p5 k)"
    using g5 by (auto simp: p6_def map_of_fill_field)
  \<comment> \<open>the images\<close>
  have "multi_valued (dict_get p6 ''images'' (PList []))"
    using mq[of "''images''"] g[of p6 "''images''" q]
    by (simp add: m6 m5 m4 m3 m2 m1 m0 list_keys_def)
  from union_field_ok[OF wb this mv] obtain z7 where
    u7: "union_field E ''images'' p6 p = Inr (dict_set p6 ''images'' (PList z7))"
    and z7: "list_all hashable z7"
      "set z7 = field_members p6 ''images'' \<union> field_members p ''images''"
    by (auto simp: list_keys_def)
  define p7 where "p7 = dict_set p6 ''images'' (PList z7)"
  have m7: "\<And>k. map_of p7 k = (if k = ''images'' then Some (PList z7) else map_of p6 k)"
    by (simp add: p7_def map_of_dict_set)
  have ab: "absorb E q p = p7"
    using u0 u1 u2 u3 u7
    by (simp add: absorb_def merge_patent_info_def merge_patent_info_try_def Let_def
          p0_def p1_def p2_def p3_def p4_def p5_def p6_def p7_def)
  have f1: "field_members p0 ''inventors'' = field_members q ''inventors''"
    by (rule fm) (simp add: m0)
  have f2: "field_members p1 ''applicants'' = field_members q ''applicants''"
    by (rule fm) (simp add: m1 m0)
  have f3: "field_members p2 ''ipc_classes'' = field_members q ''ipc_classes''"
    by (rule fm) (simp add: m2 m1 m0)
  have f7: "field_members p6 ''images'' = field_members q ''images''"
    by (rule fm) (simp add: m6 m5 m4 m3 m2 m1 m0)
  have lists: "\<forall>k \<in> set list_keys. \<exists>zs. map_of p7 k = Some (PList zs) \<and> list_all hashable zs \<and>
                 set zs = field_members q k \<union> field_members p k"
    using z0 z1 z2 z3 z7 f1 f2 f3 f7
    by (simp add: list_keys_def m7 m6 m5 m4 m3 m2 m1 m0)
  have others: "\<forall>k. k \<notin> set list_keys \<longrightarrow>
                 map_of p7 k =
                   (if k \<in> {''abstract'', ''claims'', ''description''} \<and>
                       \<not> truthy (dict_get q k PNone) \<and> truthy (dict_get p k PNone)
                    then Some (dict_get p k PNone) else map_of q k)"
    by (auto simp: list_keys_def m7 m6 m5 m4 m3 m2 m1 m0)
  from ab lists others show ?thesis by simp
qed

lemma absorb_keeps_type_and_fingerprint:
  assumes wb: "well_behaved E" and q: "well_typed q" and p: "well_typed p"
  shows "well_typed (absorb E q p)"
    and "calculate_patent_hash E (absorb E q p) = calculate_patent_hash E q"
proof -
  from q p have lq: "list_fields_ok q" and lp: "list_fields_ok p" and sq: "string_keys_ok q"
    by (simp_all add: well_typed_def)
  from absorb_well_typed[OF wb lq lp] have
    lists: "\<forall>k \<in> set list_keys. \<exists>zs. map_of (absorb E q p) k = Some (PList zs) \<and>
              list_all hashable zs \<and> set zs = field_members q k \<union> field_members p k"
    and others: "\<forall>k. k \<notin> set list_keys \<longrightarrow>
                 map_of (absorb E q p) k =
                   (if k \<in> {''abstract'', ''claims'', ''description''} \<and>
                       \<not> truthy (dict_get q k PNone) \<and> truthy (dict_get p k PNone)
                    then Some (dict_get p k PNone) else map_of q k)"
    by simp_all
  from others have pn: "map_of (absorb E q p) ''patent_number'' = map_of q ''patent_number''"
    and ti: "map_of (absorb E q p) ''title'' = map_of q ''title''"
    by (simp_all add: list_keys_def)
  from sq pn ti show "calculate_patent_hash E (absorb E q p) = calculate_patent_hash E q"
    by (rule fingerprint_cong(2))
  from sq pn ti have sk: "string_keys_ok (absorb E q p)"
    by (rule fingerprint_cong(1))
  have "list_fields_ok (absorb E q p)"
    unfolding list_fields_ok_iff
  proof
    fix k assume "k \<in> set list_keys"
    with lists obtain zs where "map_of (absorb E q p) k = Some (PList zs)" "list_all hashable zs"
      by blast
    then show "multi_valued (dict_get (absorb E q p) k (PList []))"
      by (simp add: dict_get_def)
  qed
  with sk show "well_typed (absorb E q p)" by (simp add: well_typed_def)
qed

text \<open>A well-typed record merged with itself has the same contents.\<close>

lemma absorb_self_same_content:
  assumes wb: "well_behaved E" and p: "well_typed p"
  shows "same_content (absorb E p p) p"
proof -
  from p have lp: "list_fields_ok p" by (simp add: well_typed_def)
  from absorb_well_typed[OF wb lp lp] have
    lists: "\<forall>k \<in> set list_keys. \<exists>zs. map_of (absorb E p p) k = Some (PList zs) \<and>
              list_all hashable zs \<and> set zs = field_members p k \<union> field_members p k"
    and others: "\<forall>k. k \<notin> set list_keys \<longrightarrow>
                 map_of (absorb E p p) k =
                   (if k \<in> {''abstract'', ''claims'', ''description''} \<and>
                       \<not> truthy (dict_get p k PNone) \<and> truthy (dict_get p k PNone)
                    then Some (dict_get p k PNone) else map_of p k)"
    by simp_all
  show ?thesis
    unfolding same_content_def
  proof
    fix k
    show "if k \<in> set list_keys then field_members (absorb E p p) k = field_members p k
          else map_of (absorb E p p) k = map_of p k"
    proof (cases "k \<in> set list_keys")
      case True
      with lists obtain zs where "map_of (absorb E p p) k = Some (PList zs)"
        "set zs = field_members p k \<union> field_members p k" by blast
      with True show ?thesis by (simp add: field_members_def dict_get_def)
    next
      case False
      with others show ?thesis by simp
    qed
  qed
qed

section \<open>The pass over a list and over the list twice\<close>

text \<open>A list of records with distinct fingerprints, none of them seen: all are kept.\<close>

lemma dedup_loop_all_new:
  assumes "distinct (map (calculate_patent_hash E) xs)"
    and "set (map (calculate_patent_hash E) xs) \<inter> set seen = {}"
  shows "dedup_loop E vis seen (xs @ rest) =
           dedup_loop E (vis @ map (\<lambda>p. (p, True)) xs)
             (rev (map (calculate_patent_hash E) xs) @ seen) rest"
  using assms
proof (induction xs arbitrary: vis seen)
  case Nil
  then show ?case by simp
next
  case (Cons p xs)
  from Cons.prems have new: "calculate_patent_hash E p \<notin> set seen" by auto
  from Cons.prems have d: "distinct (map (calculate_patent_hash E) xs)"
    and i: "set (map (calculate_patent_hash E) xs) \<inter> set (calculate_patent_hash E p # seen) = {}"
    by auto
  from Cons.IH[OF d i, of "vis @ [(p, True)]"] new show ?case
    by (simp add: Let_def)
qed

text \<open>
  The second visit of the same records: each is merged into its own first occurrence and
  dropped.
\<close>

lemma dedup_loop_second_visit:
  assumes wb: "well_behaved E"
    and "\<forall>p \<in> set (done @ todo). well_typed p"
    and "distinct (map (calculate_patent_hash E) (done @ todo))"
    and "set (map (calculate_patent_hash E) todo) \<subseteq> set seen"
    and "\<forall>x \<in> set F. \<not> snd x"
  shows "dedup_loop E
           (map (\<lambda>p. (absorb E p p, True)) done @ map (\<lambda>p. (p, True)) todo @ F) seen todo =
         Inr (map (\<lambda>p. (absorb E p p, True)) (done @ todo) @ F @ map (\<lambda>p. (p, False)) todo)"
  using assms(2-5)
proof (induction todo arbitrary: "done" F)
  case Nil
  then show ?case by simp
next
  case (Cons p todo)
  let ?h = "calculate_patent_hash E p"
  let ?A = "map (\<lambda>p. (absorb E p p, True)) done"
  let ?B = "map (\<lambda>p. (p, True)) todo @ F"
  from Cons.prems(1) have wp: "well_typed p" and wd: "\<forall>q \<in> set done. well_typed q" by simp_all
  from Cons.prems(3) have seen: "?h \<in> set seen" by simp
  have skip: "\<forall>x \<in> set ?A. \<not> (snd x \<and> calculate_patent_hash E (fst x) = ?h)"
  proof
    fix x assume "x \<in> set ?A"
    then obtain q where q: "q \<in> set done" "x = (absorb E q q, True)" by auto
    from wd q(1) have "calculate_patent_hash E (absorb E q q) = calculate_patent_hash E q"
      using absorb_keeps_type_and_fingerprint(2)[OF wb] by blast
    moreover have "?h \<notin> calculate_patent_hash E ` set done" using Cons.prems(2) by auto
    with q(1) have "calculate_patent_hash E q \<noteq> ?h" by (metis image_eqI)
    ultimately show "\<not> (snd x \<and> calculate_patent_hash E (fst x) = ?h)" using q(2) by simp
  qed
  from wp have "multi_valued (dict_get p ''source_databases'' (PList []))"
    by (simp add: well_typed_def list_fields_ok_def list_keys_def)
  from union_field_ok[OF wb this this] obtain q' where
    u: "union_field E ''source_databases'' p p = Inr q'"
    by blast
  have mi: "merge_into E ?h p (?A @ (p, True) # ?B) = Inr (?A @ (absorb E p p, True) # ?B)"
    using skip _ u by (rule merge_into_found) simp
  have 1: "\<forall>q \<in> set ((done @ [p]) @ todo). well_typed q" using Cons.prems(1) by simp
  have 2: "distinct (map (calculate_patent_hash E) ((done @ [p]) @ todo))"
    using Cons.prems(2) by simp
  have 3: "set (map (calculate_patent_hash E) todo) \<subseteq> set seen" using Cons.prems(3) by simp
  have 4: "\<forall>x \<in> set (F @ [(p, False)]). \<not> snd x" using Cons.prems(4) by simp
  from Cons.IH[OF 1 2 3 4] seen mi show ?case
    by (simp add: Let_def)
qed

lemma deduplicate_distinct:
  assumes "distinct (map (calculate_patent_hash E) xs)"
  shows "deduplicate_patents E xs = xs"
proof -
  have "dedup_loop E [] [] (xs @ []) =
          dedup_loop E ([] @ map (\<lambda>p. (p, True)) xs)
            (rev (map (calculate_patent_hash E) xs) @ []) []"
    using assms by (intro dedup_loop_all_new) simp_all
  then have "dedup_loop E [] [] xs = Inr (map (\<lambda>p. (p, True)) xs)" by simp
  then show ?thesis
    by (simp add: deduplicate_patents_def filter_map comp_def)
qed

lemma deduplicate_twice:
  assumes wb: "well_behaved E" and wt: "\<forall>p \<in> set xs. well_typed p"
    and d: "distinct (map (calculate_patent_hash E) xs)"
  shows "deduplicate_patents E (xs @ xs) = map (\<lambda>p. absorb E p p) xs"
proof (cases "xs = []")
  case True
  then show ?thesis by (simp add: deduplicate_patents_def)
next
  case False
  let ?seen = "rev (map (calculate_patent_hash E) xs)"
  have "dedup_loop E [] [] (xs @ xs) =
          dedup_loop E ([] @ map (\<lambda>p. (p, True)) xs) (?seen @ []) xs"
    using d by (intro dedup_loop_all_new) simp_all
  also have "\<dots> = dedup_loop E
      (map (\<lambda>p. (absorb E p p, True)) [] @ map (\<lambda>p. (p, True)) xs @ []) ?seen xs"
    by simp
  also have "\<dots> = Inr (map (\<lambda>p. (absorb E p p, True)) ([] @ xs) @ []
                       @ map (\<lambda>p. (p, False)) xs)"
    using wt d by (intro dedup_loop_second_visit[OF wb]) simp_all
  finally have "dedup_loop E [] [] (xs @ xs)
      = Inr (map (\<lambda>p. (absorb E p p, True)) xs @ map (\<lambda>p. (p, False)) xs)"
    by simp
  with False show ?thesis
    by (simp add: deduplicate_patents_def filter_map comp_def)
qed

lemma merge_into_well_typed:
  assumes wb: "well_behaved E" and p: "well_typed p"
  shows "merge_into E h p vis = Inr vis' \<Longrightarrow> \<forall>x \<in> set vis. well_typed (fst x) \<Longrightarrow>
           \<forall>y \<in> set vis'. well_typed (fst y)"
proof (induction vis arbitrary: vis')
  case Nil
  then show ?case by simp
next
  case (Cons x vis)
  obtain q k where x: "x = (q, k)" by (cases x)
  from Cons.prems(2) x have wq: "well_typed q" and rest: "\<forall>x \<in> set vis. well_typed (fst x)"
    by simp_all
  show ?case
  proof (cases "k \<and> calculate_patent_hash E q = h")
    case True
    with Cons.prems(1) x obtain q' where u: "union_field E ''source_databases'' q p = Inr q'"
      and v: "vis' = (merge_patent_info E q' p, k) # vis"
      by (auto split: sum.splits)
    from u have "absorb E q p = merge_patent_info E q' p" by (simp add: absorb_def)
    with absorb_keeps_type_and_fingerprint(1)[OF wb wq p] v rest show ?thesis by simp
  next
    case False
    with Cons.prems(1) x obtain ws where m: "merge_into E h p vis = Inr ws" and v: "vis' = x # ws"
      by (auto split: sum.splits)
    from Cons.IH[OF m rest] v wq x show ?thesis by simp
  qed
qed

lemma grown_kept_list:
  "list_all2 (grown E) vis vis' \<Longrightarrow>
     map (\<lambda>x. calculate_patent_hash E (fst x)) (filter snd vis')
       = map (\<lambda>x. calculate_patent_hash E (fst x)) (filter snd vis)"
  by (induction rule: list_all2_induct) (auto simp: grown_def)

text \<open>
  What the pass returns for well-typed records: well-typed records with distinct
  fingerprints.
\<close>

lemma dedup_loop_well_typed:
  assumes wb: "well_behaved E"
    and "\<forall>x \<in> set vis. well_typed (fst x)" and "\<forall>p \<in> set ps. well_typed p"
    and "set seen = kept_hashes E vis"
    and "distinct (map (\<lambda>x. calculate_patent_hash E (fst x)) (filter snd vis))"
  shows "\<exists>v. dedup_loop E vis seen ps = Inr v \<and> (\<forall>y \<in> set v. well_typed (fst y)) \<and>
           distinct (map (\<lambda>x. calculate_patent_hash E (fst x)) (filter snd v))"
  using assms(2-5)
proof (induction ps arbitrary: vis seen)
  case Nil
  then show ?case by simp
next
  case (Cons p ps)
  let ?h = "calculate_patent_hash E p"
  from Cons.prems have wp: "well_typed p" and wps: "\<forall>p \<in> set ps. well_typed p" by simp_all
  show ?case
  proof (cases "?h \<in> set seen")
    case False
    let ?vis = "vis @ [(p, True)]"
    have 1: "\<forall>x \<in> set ?vis. well_typed (fst x)" using Cons.prems(1) wp by auto
    have 2: "set (?h # seen) = kept_hashes E ?vis"
      using Cons.prems(3) by (simp add: kept_hashes_snoc)
    have 3: "distinct (map (\<lambda>x. calculate_patent_hash E (fst x)) (filter snd ?vis))"
      using Cons.prems(3,4) False by (simp add: kept_hashes_def)
    from Cons.IH[OF 1 wps 2 3] False show ?thesis by (simp add: Let_def)
  next
    case True
    have kv: "\<forall>x \<in> set vis. keyed (fst x)"
      using Cons.prems(1) well_typed_keyed by blast
    from merge_into_grown[OF wb well_typed_keyed[OF wp] kv, of ?h] obtain vis' where
      mi: "merge_into E ?h p vis = Inr vis'" and g: "list_all2 (grown E) vis vis'"
      by blast
    let ?vis = "vis' @ [(p, False)]"
    have 1: "\<forall>x \<in> set ?vis. well_typed (fst x)"
      using merge_into_well_typed[OF wb wp mi Cons.prems(1)] wp by auto
    have 2: "set seen = kept_hashes E ?vis"
      using Cons.prems(3) grown_kept_hashes[OF g] by (simp add: kept_hashes_snoc)
    have 3: "distinct (map (\<lambda>x. calculate_patent_hash E (fst x)) (filter snd ?vis))"
      using Cons.prems(4) grown_kept_list[OF g] by simp
    from Cons.IH[OF 1 wps 2 3] True mi show ?thesis by (simp add: Let_def)
  qed
qed

lemma deduplicate_well_typed:
  assumes "well_behaved E" and "\<forall>p \<in> set ys. well_typed p"
  shows "\<forall>p \<in> set (deduplicate_patents E ys). well_typed p"
    and "distinct (map (calculate_patent_hash E) (deduplicate_patents E ys))"
proof -
  from dedup_loop_well_typed[OF assms(1) _ assms(2), of "[]" "[]"] obtain v where
    v: "dedup_loop E [] [] ys = Inr v" "\<forall>y \<in> set v. well_typed (fst y)"
      "distinct (map (\<lambda>x. calculate_patent_hash E (fst x)) (filter snd v))"
    by (auto simp: kept_hashes_def)
  have d: "deduplicate_patents E ys = map fst (filter snd v)"
    using v(1) dedup_loop_length_Inr[OF v(1)] by (cases "ys = []") (simp_all add: deduplicate_patents_def)
  from v(2) show "\<forall>p \<in> set (deduplicate_patents E ys). well_typed p"
    unfolding d by auto
  from v(3) show "distinct (map (calculate_patent_hash E) (deduplicate_patents E ys))"
    unfolding d by (simp add: comp_def)
qed

text \<open>
  C9, as amended. The records are those of the data model: number and title are strings
  and the five multi-valued fields are lists of hashable values, a missing key counting
  as its default. Let \<open>xs\<close> be what the pass returns for any list of such records (a list
  whose fingerprints are distinct is returned as it is). Then the pass over \<open>xs\<close>
  followed by \<open>xs\<close> returns as many records as \<open>xs\<close> has, and its i-th record has the
  contents of the i-th record of \<open>xs\<close>: the same members in every multi-valued field and
  the same value under every other key. The pass over \<open>xs\<close> itself returns \<open>xs\<close>.
\<close>

theorem deduplication_is_idempotent:
  assumes "well_behaved E" and "\<forall>p \<in> set ys. well_typed p"
    and "xs = deduplicate_patents E ys"
  shows "deduplicate_patents E xs = xs
       \<and> length (deduplicate_patents E (xs @ xs)) = length xs
       \<and> list_all2 same_content (deduplicate_patents E (xs @ xs)) xs
       \<and> (distinct (map (calculate_patent_hash E) ys) \<longrightarrow> xs = ys)"
proof -
  from deduplicate_well_typed[OF assms(1,2)] assms(3)
  have wt: "\<forall>p \<in> set xs. well_typed p" and d: "distinct (map (calculate_patent_hash E) xs)"
    by simp_all
  have tw: "deduplicate_patents E (xs @ xs) = map (\<lambda>p. absorb E p p) xs"
    using assms(1) wt d by (rule deduplicate_twice)
  have "list_all2 same_content (map (\<lambda>p. absorb E p p) xs) xs"
    using wt absorb_self_same_content[OF assms(1)]
    by (simp add: list_all2_map1 list_all2_same)
  with tw deduplicate_distinct[OF d] deduplicate_distinct[of E ys] assms(3)
  show ?thesis by simp
qed

text \<open>
  Against C9 as stated. A record whose inventors are one string, not a list: alone it is
  returned as it is, but met twice its inventors become a list (of the characters of the
  string). A record whose sources are \<^verbatim>\<open>None\<close>: alone it is returned as it is, but the
  pass over the record twice raises in the union of the sources, and the handler of
  \<^verbatim>\<open>_deduplicate_patents\<close> returns the input, two records.
\<close>

theorem deduplication_not_idempotent_on_ill_typed_records:
  "\<forall>E. deduplicate_patents E
          [[(''patent_number'', PStr ''1''), (''title'', PStr ''t''),
            (''inventors'', PStr ''Al''), (''source_databases'', PList [PStr ''uspto''])]]
        = [[(''patent_number'', PStr ''1''), (''title'', PStr ''t''),
            (''inventors'', PStr ''Al''), (''source_databases'', PList [PStr ''uspto''])]]
      \<and> (\<exists>m zs. deduplicate_patents E
            [[(''patent_number'', PStr ''1''), (''title'', PStr ''t''),
              (''inventors'', PStr ''Al''), (''source_databases'', PList [PStr ''uspto''])],
             [(''patent_number'', PStr ''1''), (''title'', PStr ''t''),
              (''inventors'', PStr ''Al''), (''source_databases'', PList [PStr ''uspto''])]]
            = [m]
          \<and> dict_get m ''inventors'' PNone = PList zs)
      \<and> deduplicate_patents E
          [[(''patent_number'', PStr ''1''), (''title'', PStr ''t''),
            (''source_databases'', PNone)]]
        = [[(''patent_number'', PStr ''1''), (''title'', PStr ''t''),
            (''source_databases'', PNone)]]
      \<and> deduplicate_patents E
          [[(''patent_number'', PStr ''1''), (''title'', PStr ''t''),
            (''source_databases'', PNone)],
           [(''patent_number'', PStr ''1''), (''title'', PStr ''t''),
            (''source_databases'', PNone)]]
        = [[(''patent_number'', PStr ''1''), (''title'', PStr ''t''),
            (''source_databases'', PNone)],
           [(''patent_number'', PStr ''1''), (''title'', PStr ''t''),
            (''source_databases'', PNone)]]"
  by (simp add: deduplicate_patents_def Let_def union_field_def py_union_def
        merge_patent_info_def merge_patent_info_try_def fill_field_def dict_get_def
        dict_set_def)

text \<open>
  Two backends return the same patent. The pass merges them into one record; the pass
  over that record twice returns one record again, with the same contents.
\<close>

theorem deduplication_is_idempotent_witness:
  "deduplicate_patents sample_env
     [[(''patent_number'', PStr ''US1234567''), (''title'', PStr ''Widget''),
       (''inventors'', PList [PStr ''Ann'']), (''source_databases'', PList [PStr ''dbA''])],
      [(''patent_number'', PStr ''1234567''), (''title'', PStr ''widget ''),
       (''inventors'', PList [PStr ''Bob'', PStr ''Ann'']), (''abstract'', PStr ''A gadget.''),
       (''source_databases'', PList [PStr ''dbB''])]]
   = [[(''patent_number'', PStr ''US1234567''), (''title'', PStr ''Widget''),
       (''inventors'', PList [PStr ''Bob'', PStr ''Ann'']),
       (''source_databases'', PList [PStr ''dbA'', PStr ''dbB'']),
       (''applicants'', PList []), (''ipc_classes'', PList []),
       (''abstract'', PStr ''A gadget.''), (''images'', PList [])]]
   \<and> length (deduplicate_patents sample_env
        ([[(''patent_number'', PStr ''US1234567''), (''title'', PStr ''Widget''),
           (''inventors'', PList [PStr ''Bob'', PStr ''Ann'']),
           (''source_databases'', PList [PStr ''dbA'', PStr ''dbB'']),
           (''applicants'', PList []), (''ipc_classes'', PList []),
           (''abstract'', PStr ''A gadget.''), (''images'', PList [])]]
         @ [[(''patent_number'', PStr ''US1234567''), (''title'', PStr ''Widget''),
           (''inventors'', PList [PStr ''Bob'', PStr ''Ann'']),
           (''source_databases'', PList [PStr ''dbA'', PStr ''dbB'']),
           (''applicants'', PList []), (''ipc_classes'', PList []),
           (''abstract'', PStr ''A gadget.''), (''images'', PList [])]])) = 1
   \<and> list_all2 same_content
       (deduplicate_patents sample_env
        ([[(''patent_number'', PStr ''US1234567''), (''title'', PStr ''Widget''),
           (''inventors'', PList [PStr ''Bob'', PStr ''Ann'']),
           (''source_databases'', PList [PStr ''dbA'', PStr ''dbB'']),
           (''applicants'', PList []), (''ipc_classes'', PList []),
           (''abstract'', PStr ''A gadget.''), (''images'', PList [])]]
         @ [[(''patent_number'', PStr ''US1234567''), (''title'', PStr ''Widget''),
           (''inventors'', PList [PStr ''Bob'', PStr ''Ann'']),
           (''source_databases'', PList [PStr ''dbA'', PStr ''dbB'']),
           (''applicants'', PList []), (''ipc_classes'', PList []),
           (''abstract'', PStr ''A gadget.''), (''images'', PList [])]]))
       [[(''patent_number'', PStr ''US1234567''), (''title'', PStr ''Widget''),
         (''inventors'', PList [PStr ''Bob'', PStr ''Ann'']),
         (''source_databases'', PList [PStr ''dbA'', PStr ''dbB'']),
         (''applicants'', PList []), (''ipc_classes'', PList []),
         (''abstract'', PStr ''A gadget.''), (''images'', PList [])]]"
proof -
  let ?a = "[(''patent_number'', PStr ''US1234567''), (''title'', PStr ''Widget''),
       (''inventors'', PList [PStr ''Ann'']), (''source_databases'', PList [PStr ''dbA''])]"
  let ?b = "[(''patent_number'', PStr ''1234567''), (''title'', PStr ''widget ''),
       (''inventors'', PList [PStr ''Bob'', PStr ''Ann'']), (''abstract'', PStr ''A gadget.''),
       (''source_databases'', PList [PStr ''dbB''])]"
  let ?m = "[(''patent_number'', PStr ''US1234567''), (''title'', PStr ''Widget''),
       (''inventors'', PList [PStr ''Bob'', PStr ''Ann'']),
       (''source_databases'', PList [PStr ''dbA'', PStr ''dbB'']),
       (''applicants'', PList []), (''ipc_classes'', PList []),
       (''abstract'', PStr ''A gadget.''), (''images'', PList [])]"
  have h: "calculate_patent_hash sample_env ?a = calculate_patent_hash sample_env ?b"
    by (simp add: calculate_patent_hash_def hash_string_def dict_get_def
          normalize_number_examples)
  have e: "deduplicate_patents sample_env [?a, ?b] = [?m]"
    by (simp add: deduplicate_patents_def Let_def h union_field_def py_union_def
          merge_patent_info_def merge_patent_info_try_def fill_field_def dict_get_def
          dict_set_def sample_env_simps)
  have wt: "\<forall>p \<in> set [?a, ?b]. well_typed p"
    by (simp add: well_typed_def string_keys_ok_def list_fields_ok_def list_keys_def
          dict_get_def)
  from deduplication_is_idempotent[OF well_behaved_sample_env wt e[symmetric]] e
  show ?thesis by simp
qed

end
